theory Spec2Isabelle
  imports Main "HOL-Library.Word" "HOL-Library.AList" "HOL-Library.Multiset"
begin

section \<open>Bytes and fixed-width big-endian integers\<close>

text \<open>
  A Python \<open>bytes\<close> object is a list of 8-bit words. Python integers are unbounded and
  are modelled as \<open>int\<close>; lengths and decoded unsigned fields are \<open>nat\<close>.
\<close>

type_synonym byte = "8 word"
type_synonym bytes = "byte list"

datatype error =
    ConfigurationError      \<comment> \<open>Transmitter: chunk size zero or negative\<close>
  | OverflowError           \<comment> \<open>\<open>int.to_bytes\<close>: value does not fit, or is negative\<close>
  | ZeroDivisionError       \<comment> \<open>\<open>//\<close> or \<open>%\<close> by zero\<close>
  | IndexError              \<comment> \<open>list index out of range\<close>
  | ConnectionAbortedError  \<comment> \<open>Receiver: a handshake field could not be read\<close>
  | ValueError              \<comment> \<open>Receiver: invalid data size, or undecodable text\<close>
  | SocketTimeout           \<comment> \<open>\<open>socket.timeout\<close> raised by \<open>recv\<close>\<close>

text \<open>\<open>bs[s:e]\<close> for non-negative \<open>s\<close>, \<open>e\<close>: never raises, clips at the end.\<close>

definition slice :: "'a list \<Rightarrow> nat \<Rightarrow> nat \<Rightarrow> 'a list" where
  "slice xs s e = take (e - s) (drop s xs)"

text \<open>\<open>int.from_bytes(bs, 'big')\<close>; the empty byte string decodes to 0.\<close>

definition from_bytes :: "bytes \<Rightarrow> nat" where
  "from_bytes bs = foldl (\<lambda>a b. a * 256 + unat b) 0 bs"

text \<open>\<open>i.to_bytes(2, 'big')\<close>: raises OverflowError outside \<open>0 .. 65535\<close>.\<close>

definition to_bytes2 :: "int \<Rightarrow> error + bytes" where
  "to_bytes2 i =
     (if 0 \<le> i \<and> i < 65536 then Inr [of_int (i div 256), of_int (i mod 256)]
      else Inl OverflowError)"

section \<open>Transmitter: the chunk splitter\<close>

definition header_size :: int where
  "header_size = 10"

text \<open>The module constant \<open>cols = 20\<close>; the splitter below takes the column count as an argument.\<close>

definition cols :: int where
  "cols = 20"

text \<open>
  One iteration of the \<open>for i in range(total_frames)\<close> loop of
  \<open>generate_frames_from_file\<close>: the zero-padded chunk, the grid position, the header.
  The divisions come first, then the four \<open>to_bytes\<close> calls from left to right.
\<close>

definition make_frame :: "bytes \<Rightarrow> int \<Rightarrow> int \<Rightarrow> int \<Rightarrow> nat \<Rightarrow> error + bytes" where
  "make_frame file_bytes chunk_size ncols total_frames i =
     (let chunk_start = int i * chunk_size;
          chunk_end = (int i + 1) * chunk_size;
          raw_chunk = slice file_bytes (nat chunk_start) (nat chunk_end);
          chunk = raw_chunk @ replicate (nat (chunk_size - int (length raw_chunk))) 0
      in if ncols = 0 then Inl ZeroDivisionError
         else
           let row_idx = int i div ncols; col_idx = int i mod ncols
           in case to_bytes2 (int i) of Inl e \<Rightarrow> Inl e | Inr b0 \<Rightarrow>
              (case to_bytes2 row_idx of Inl e \<Rightarrow> Inl e | Inr b1 \<Rightarrow>
              (case to_bytes2 col_idx of Inl e \<Rightarrow> Inl e | Inr b2 \<Rightarrow>
              (case to_bytes2 total_frames of Inl e \<Rightarrow> Inl e | Inr b3 \<Rightarrow>
                 Inr (b0 @ b1 @ b2 @ b3 @ [0, 0] @ chunk)))))"

text \<open>The loop itself: the first exception ends the whole generation.\<close>

fun frames_loop :: "bytes \<Rightarrow> int \<Rightarrow> int \<Rightarrow> int \<Rightarrow> nat list \<Rightarrow> error + bytes list" where
  "frames_loop file_bytes chunk_size ncols total_frames [] = Inr []"
| "frames_loop file_bytes chunk_size ncols total_frames (i # is) =
     (case make_frame file_bytes chunk_size ncols total_frames i of
        Inl e \<Rightarrow> Inl e
      | Inr f \<Rightarrow>
          (case frames_loop file_bytes chunk_size ncols total_frames is of
             Inl e \<Rightarrow> Inl e
           | Inr fs \<Rightarrow> Inr (f # fs)))"

text \<open>
  \<open>generate_frames_from_file\<close> on the bytes already read from the file. The frames are
  returned in the order \<open>_send_data_task\<close> later sends them (\<open>i = 0, 1, ...\<close>).
\<close>

definition generate_frames_from_file :: "bytes \<Rightarrow> int \<Rightarrow> int \<Rightarrow> error + bytes list" where
  "generate_frames_from_file file_bytes total_frame_size ncols =
     (let chunk_size = total_frame_size - header_size
      in if chunk_size \<le> 0 then Inl ConfigurationError
         else
           let total_frames = (int (length file_bytes) + chunk_size - 1) div chunk_size
           in frames_loop file_bytes chunk_size ncols total_frames [0..<nat total_frames])"

section \<open>Receiver: the socket and the exact-read helper\<close>

text \<open>
  A connection is the list of what successive \<open>recv\<close> calls will find: a segment of
  bytes that has arrived, or a timeout (\<open>conn.settimeout(60.0)\<close>). The empty list is a
  connection the peer has closed: \<open>recv\<close> then returns \<open>b''\<close>.
\<close>

datatype sock_event = Data bytes | Timeout

type_synonym sock = "sock_event list"

text \<open>\<open>sock.recv(k)\<close>: at most \<open>k\<close> bytes of the next segment; the rest stays queued.\<close>

fun recv :: "sock \<Rightarrow> nat \<Rightarrow> (error + bytes) \<times> sock" where
  "recv [] k = (Inr [], [])"
| "recv (Timeout # s) k = (Inl SocketTimeout, s)"
| "recv (Data p # s) k =
     (Inr (take k p), if length p \<le> k then s else Data (drop k p) # s)"

text \<open>
  The \<open>while len(data) < n\<close> loop of \<open>_recv_all\<close>. \<open>Inr None\<close> is the \<open>return None\<close>
  after an empty packet; an exception of \<open>recv\<close> propagates.
\<close>

function recv_all_loop :: "bytes \<Rightarrow> nat \<Rightarrow> sock \<Rightarrow> (error + bytes option) \<times> sock" where
  "recv_all_loop data n s =
     (if length data < n then
        (case recv s (n - length data) of
           (Inl e, s') \<Rightarrow> (Inl e, s')
         | (Inr packet, s') \<Rightarrow>
             if packet = [] then (Inr None, s')
             else recv_all_loop (data @ packet) n s')
      else (Inr (Some data), s))"
  by pat_completeness auto
termination
  by (relation "measure (\<lambda>(data, n, s). n - length data)") (auto simp: neq_Nil_conv)

declare recv_all_loop.simps [simp del]

lemma recv_all_loop_done [simp]:
  "\<not> length data < n \<Longrightarrow> recv_all_loop data n s = (Inr (Some data), s)"
  by (subst recv_all_loop.simps) simp

lemma recv_all_loop_step:
  "length data < n \<Longrightarrow>
   recv_all_loop data n s =
     (case recv s (n - length data) of
        (Inl e, s') \<Rightarrow> (Inl e, s')
      | (Inr packet, s') \<Rightarrow>
          if packet = [] then (Inr None, s')
          else recv_all_loop (data @ packet) n s')"
  by (subst recv_all_loop.simps) simp

definition recv_all :: "sock \<Rightarrow> nat \<Rightarrow> (error + bytes option) \<times> sock" where
  "recv_all s n = recv_all_loop [] n s"

section \<open>Receiver: the grid reconstruction engine\<close>

datatype log_event =
    ExpectingTotal nat                   \<comment> \<open>"Expecting N total frames"\<close>
  | TotalFramesMismatch int nat nat nat  \<comment> \<open>"WARN: Total frames mismatch": expected, got, row, col\<close>
  | ReceivedFrame nat nat                \<comment> \<open>"Received frame (R, C)"\<close>
  | AllFramesReceived int                \<comment> \<open>"All N frames received ... Reconstructing"\<close>
  | ClientDisconnected                   \<comment> \<open>"Client disconnected or end of stream."\<close>
  | MissingChunk nat nat                 \<comment> \<open>"ERROR: Missing chunk at (Row, Col)"\<close>
  | FailedToReceiveAll int nat           \<comment> \<open>"Failed to receive all frames": expected, got\<close>

text \<open>
  The local variables of the receive loop. \<open>frame_grid\<close> is the dictionary keyed by
  \<open>(row, col)\<close>, kept in insertion order; \<open>received\<close> is
  \<open>total_frames_received_for_current_image\<close>.
\<close>

record rx_state =
  frame_grid :: "((nat \<times> nat) \<times> bytes) list"
  max_row :: int
  max_col :: int
  total_frames_expected :: int
  received :: nat
  log :: "log_event list"

definition expected_header_size :: nat where
  "expected_header_size = 10"

definition init_state :: rx_state where
  "init_state = \<lparr>frame_grid = [], max_row = - 1, max_col = - 1,
                  total_frames_expected = - 1, received = 0, log = []\<rparr>"

text \<open>The header fields of a raw frame, as the loop body slices them.\<close>

definition frame_header :: "bytes \<Rightarrow> bytes" where
  "frame_header full_frame_data = take expected_header_size full_frame_data"

definition frame_chunk :: "bytes \<Rightarrow> bytes" where
  "frame_chunk full_frame_data = drop expected_header_size full_frame_data"

definition frame_idx :: "bytes \<Rightarrow> nat" where
  "frame_idx full_frame_data = from_bytes (slice (frame_header full_frame_data) 0 2)"

definition row_idx :: "bytes \<Rightarrow> nat" where
  "row_idx full_frame_data = from_bytes (slice (frame_header full_frame_data) 2 4)"

definition col_idx :: "bytes \<Rightarrow> nat" where
  "col_idx full_frame_data = from_bytes (slice (frame_header full_frame_data) 4 6)"

definition current_total_frames :: "bytes \<Rightarrow> nat" where
  "current_total_frames full_frame_data = from_bytes (slice (frame_header full_frame_data) 6 8)"

text \<open>The body of the \<open>while True\<close> loop for one frame that was read in full.\<close>

definition process_frame :: "rx_state \<Rightarrow> bytes \<Rightarrow> rx_state" where
  "process_frame st full_frame_data =
     (let chunk = frame_chunk full_frame_data;
          r = row_idx full_frame_data;
          c = col_idx full_frame_data;
          current_total = current_total_frames full_frame_data;
          st1 = (if total_frames_expected st = - 1
                 then st\<lparr>total_frames_expected := int current_total,
                         log := log st @ [ExpectingTotal current_total]\<rparr>
                 else if total_frames_expected st \<noteq> int current_total
                 then st\<lparr>log := log st @
                         [TotalFramesMismatch (total_frames_expected st) current_total r c]\<rparr>
                 else st);
          grid = AList.update (r, c) chunk (frame_grid st1)
      in st1\<lparr>frame_grid := grid,
             max_row := max (max_row st1) (int r),
             max_col := max (max_col st1) (int c),
             received := length grid,
             log := log st1 @ [ReceivedFrame r c]\<rparr>)"

text \<open>Size of a connection, for the termination of the receive loop.\<close>

fun event_size :: "sock_event \<Rightarrow> nat" where
  "event_size (Data p) = Suc (length p)"
| "event_size Timeout = 1"

definition sock_size :: "sock \<Rightarrow> nat" where
  "sock_size s = sum_list (map event_size s)"

lemma recv_size: "recv s k = (r, s') \<Longrightarrow> sock_size s' \<le> sock_size s"
  by (cases "(s, k)" rule: recv.cases) (auto simp: sock_size_def split: if_splits)

lemma recv_size_strict:
  "recv s k = (Inr p, s') \<Longrightarrow> p \<noteq> [] \<Longrightarrow> sock_size s' < sock_size s"
  by (cases "(s, k)" rule: recv.cases) (auto simp: sock_size_def split: if_splits)

lemma recv_all_loop_size:
  "recv_all_loop data n s = (r, s') \<Longrightarrow> sock_size s' \<le> sock_size s"
proof (induction data n s arbitrary: r s' rule: recv_all_loop.induct)
  case (1 data n s)
  show ?case
  proof (cases "length data < n")
    case False
    with "1.prems" show ?thesis by simp
  next
    case True
    obtain x s1 where rc: "recv s (n - length data) = (x, s1)"
      by (cases "recv s (n - length data)")
    have le1: "sock_size s1 \<le> sock_size s" using rc by (rule recv_size)
    show ?thesis
    proof (cases x)
      case (Inl e)
      with "1.prems" True rc le1 show ?thesis by (simp add: recv_all_loop_step)
    next
      case (Inr packet)
      show ?thesis
      proof (cases "packet = []")
        case True
        with "1.prems" \<open>length data < n\<close> rc Inr le1 show ?thesis
          by (simp add: recv_all_loop_step)
      next
        case False
        have "recv_all_loop (data @ packet) n s1 = (r, s')"
          using "1.prems" \<open>length data < n\<close> rc Inr False by (simp add: recv_all_loop_step)
        then have "sock_size s' \<le> sock_size s1"
          using "1.IH" [OF \<open>length data < n\<close> rc [symmetric] Inr False] by simp
        with le1 show ?thesis by simp
      qed
    qed
  qed
qed

lemma recv_all_size_strict:
  assumes "recv_all s n = (Inr (Some f), s')" and "f \<noteq> []"
  shows "sock_size s' < sock_size s"
proof -
  have n: "0 < n"
    using assms by (cases n) (auto simp: recv_all_def)
  obtain x s1 where rc: "recv s n = (x, s1)"
    by (cases "recv s n")
  show ?thesis
  proof (cases x)
    case (Inl e)
    with assms n rc show ?thesis by (simp add: recv_all_def recv_all_loop_step)
  next
    case (Inr packet)
    show ?thesis
    proof (cases "packet = []")
      case True
      with assms n rc Inr show ?thesis by (simp add: recv_all_def recv_all_loop_step)
    next
      case False
      have "recv_all_loop packet n s1 = (Inr (Some f), s')"
        using assms n rc Inr False by (simp add: recv_all_def recv_all_loop_step)
      then have "sock_size s' \<le> sock_size s1" by (rule recv_all_loop_size)
      moreover have "sock_size s1 < sock_size s"
        using rc Inr False by (auto intro: recv_size_strict)
      ultimately show ?thesis by simp
    qed
  qed
qed

text \<open>
  The \<open>while True\<close> loop: read exactly \<open>n\<close> bytes; stop on a closed connection, or when
  the number of distinct grid positions equals the expected total.
\<close>

function frame_loop :: "nat \<Rightarrow> rx_state \<Rightarrow> sock \<Rightarrow> (error + rx_state) \<times> sock" where
  "frame_loop n st s =
     (case recv_all s n of
        (Inl e, s') \<Rightarrow> (Inl e, s')
      | (Inr None, s') \<Rightarrow> (Inr (st\<lparr>log := log st @ [ClientDisconnected]\<rparr>), s')
      | (Inr (Some full_frame_data), s') \<Rightarrow>
          if full_frame_data = [] then (Inr (st\<lparr>log := log st @ [ClientDisconnected]\<rparr>), s')
          else
            let st' = process_frame st full_frame_data
            in if int (received st') = total_frames_expected st'
               then (Inr (st'\<lparr>log := log st' @ [AllFramesReceived (total_frames_expected st')]\<rparr>), s')
               else frame_loop n st' s')"
  by pat_completeness auto
termination
proof (relation "measure (\<lambda>(n, st, s). sock_size s)")
  show "wf (measure (\<lambda>(n, st, s). sock_size s))" by simp
next
  fix n :: nat and st :: rx_state and s :: sock and x s' y z st'
  assume "(x, s') = recv_all s n" "x = Inr y" "y = Some z" "z \<noteq> []"
  then have "recv_all s n = (Inr (Some z), s')" by simp
  then have "sock_size s' < sock_size s" using \<open>z \<noteq> []\<close> by (rule recv_all_size_strict)
  then show "((n, st', s'), (n, st, s)) \<in> measure (\<lambda>(n, st, s). sock_size s)" by simp
qed

declare frame_loop.simps [simp del]

text \<open>
  The reconstruction after the loop: rows \<open>0 .. max_row\<close>, columns \<open>0 .. max_col\<close>;
  a position that is not in the grid contributes \<open>b''\<close> and one logged error.
\<close>

definition grid_cell :: "((nat \<times> nat) \<times> bytes) list \<Rightarrow> nat \<Rightarrow> nat \<Rightarrow> bytes" where
  "grid_cell grid r c = (case map_of grid (r, c) of Some chunk \<Rightarrow> chunk | None \<Rightarrow> [])"

definition combined_bytes :: "rx_state \<Rightarrow> bytes" where
  "combined_bytes st =
     concat (map (\<lambda>r. concat (map (\<lambda>c. grid_cell (frame_grid st) r c)
                                   [0..<nat (max_col st + 1)]))
                 [0..<nat (max_row st + 1)])"

definition missing_chunks :: "rx_state \<Rightarrow> log_event list" where
  "missing_chunks st =
     concat (map (\<lambda>r. concat (map (\<lambda>c. if map_of (frame_grid st) (r, c) = None
                                          then [MissingChunk r c] else [])
                                   [0..<nat (max_col st + 1)]))
                 [0..<nat (max_row st + 1)])"

text \<open>
  What a session ends with: the reconstructed bytes handed to the image decoder, the
  "failed to receive all frames" branch, or an exception caught by the handler.
\<close>

datatype outcome =
    Reconstructed bytes
  | Incomplete int nat
  | Raised error

text \<open>The \<open>if total_frames_expected > 0 and ... == total_frames_expected\<close> after the loop.\<close>

definition finish :: "rx_state \<Rightarrow> outcome \<times> log_event list" where
  "finish st =
     (if total_frames_expected st > 0 \<and> int (received st) = total_frames_expected st
      then (Reconstructed (combined_bytes st), log st @ missing_chunks st)
      else (Incomplete (total_frames_expected st) (received st),
            log st @ [FailedToReceiveAll (total_frames_expected st) (received st)]))"

text \<open>The frame loop and what follows it, from a given frame size on.\<close>

definition receive_image :: "nat \<Rightarrow> sock \<Rightarrow> (outcome \<times> log_event list) \<times> sock" where
  "receive_image data_size s =
     (case frame_loop data_size init_state s of
        (Inl e, s') \<Rightarrow> ((Raised e, []), s')
      | (Inr st, s') \<Rightarrow> (finish st, s'))"

section \<open>Receiver: the session handshake\<close>

text \<open>\<open>str.strip('\x00')\<close>: NUL characters removed at both ends.\<close>

definition strip_nul :: "string \<Rightarrow> string" where
  "strip_nul str =
     rev (dropWhile (\<lambda>ch. ch = CHR 0x00) (rev (dropWhile (\<lambda>ch. ch = CHR 0x00) str)))"

text \<open>
  \<open>_handle_client_connection\<close>. The UTF-8 decoder is Python's own and is an argument:
  \<open>decode bs = None\<close> is a UnicodeDecodeError, which the handler catches as a ValueError.
  The directories and files the handler writes on the way are not part of the model.
  The result is the outcome, the names read, and what is left of the connection.
\<close>

record session =
  result :: outcome
  transmitter :: string
  filename :: string
  events :: "log_event list"
  conn_rest :: sock

definition handle_client_connection :: "(bytes \<Rightarrow> string option) \<Rightarrow> sock \<Rightarrow> session" where
  "handle_client_connection decode conn =
     (case recv_all conn 50 of
        (Inl e, s1) \<Rightarrow>
          \<lparr>result = Raised e, transmitter = [], filename = [], events = [], conn_rest = s1\<rparr>
      | (Inr transmitter_name_bytes, s1) \<Rightarrow>
     (if transmitter_name_bytes = None \<or> transmitter_name_bytes = Some []
      then \<lparr>result = Raised ConnectionAbortedError, transmitter = [], filename = [],
             events = [], conn_rest = s1\<rparr>
      else case decode (the transmitter_name_bytes) of
        None \<Rightarrow>
          \<lparr>result = Raised ValueError, transmitter = [], filename = [], events = [], conn_rest = s1\<rparr>
      | Some name \<Rightarrow>
     (let transmitter_name = strip_nul name
      in case recv_all s1 100 of
        (Inl e, s2) \<Rightarrow>
          \<lparr>result = Raised e, transmitter = transmitter_name, filename = [],
            events = [], conn_rest = s2\<rparr>
      | (Inr filename_bytes, s2) \<Rightarrow>
     (if filename_bytes = None \<or> filename_bytes = Some []
      then \<lparr>result = Raised ConnectionAbortedError, transmitter = transmitter_name,
             filename = [], events = [], conn_rest = s2\<rparr>
      else case decode (the filename_bytes) of
        None \<Rightarrow>
          \<lparr>result = Raised ValueError, transmitter = transmitter_name, filename = [],
            events = [], conn_rest = s2\<rparr>
      | Some fname \<Rightarrow>
     (let file_name = strip_nul fname
      in case recv_all s2 4 of
        (Inl e, s3) \<Rightarrow>
          \<lparr>result = Raised e, transmitter = transmitter_name, filename = file_name,
            events = [], conn_rest = s3\<rparr>
      | (Inr data_size_bytes, s3) \<Rightarrow>
     (if data_size_bytes = None \<or> data_size_bytes = Some []
      then \<lparr>result = Raised ConnectionAbortedError, transmitter = transmitter_name,
             filename = file_name, events = [], conn_rest = s3\<rparr>
      else
        let data_size = from_bytes (the data_size_bytes)
        in if data_size \<le> 0
           then \<lparr>result = Raised ValueError, transmitter = transmitter_name,
                  filename = file_name, events = [], conn_rest = s3\<rparr>
           else case receive_image data_size s3 of
             ((res, evs), s4) \<Rightarrow>
               \<lparr>result = res, transmitter = transmitter_name, filename = file_name,
                 events = evs, conn_rest = s4\<rparr>))))))"

section \<open>Receiver: the live-feed slot assignment\<close>

text \<open>
  One entry of \<open>live_feed_assignments\<close>, without its widgets. The string \<open>'N/A'\<close>
  marks a slot no transmitter has been assigned to.
\<close>

record 'img feed =
  transmitter_name :: string
  last_image_data :: "'img option"

definition NA :: string where
  "NA = ''N/A''"

definition empty_feed :: "'img feed" where
  "empty_feed = \<lparr>transmitter_name = NA, last_image_data = None\<rparr>"

text \<open>The table \<open>__init__\<close> creates: four unassigned slots.\<close>

definition initial_feeds :: "'img feed list" where
  "initial_feeds = [empty_feed, empty_feed, empty_feed, empty_feed]"

text \<open>The dictionary literal \<open>preferred_assignments\<close>, as its items in order.\<close>

definition preferred_assignments :: "(string \<times> nat) list" where
  "preferred_assignments = [(''Tx1'', 0), (''Tx2'', 1)]"

text \<open>
  \<open>for i, feed in enumerate(feeds): if cond(i, feed): index = i; break\<close>, counting
  from \<open>i\<close>.
\<close>

fun first_feed :: "nat \<Rightarrow> (nat \<Rightarrow> 'a \<Rightarrow> bool) \<Rightarrow> 'a list \<Rightarrow> nat option" where
  "first_feed i cond [] = None"
| "first_feed i cond (x # xs) = (if cond i x then Some i else first_feed (Suc i) cond xs)"

text \<open>
  Steps 1 to 4 of \<open>_update_live_feed_display\<close>: the value of \<open>assigned_to_feed_index\<close>
  before the update, with \<open>None\<close> for \<open>-1\<close>. The preferred index is looked up in the list,
  which raises IndexError when it is out of range.
\<close>

definition preferred_step :: "(string \<times> nat) list \<Rightarrow> 'img feed list \<Rightarrow> string \<Rightarrow> error + nat option" where
  "preferred_step prefs feeds name =
     (case map_of prefs name of
        None \<Rightarrow> Inr None
      | Some preferred_idx \<Rightarrow>
          if preferred_idx < length feeds then
            (if transmitter_name (feeds ! preferred_idx) \<in> set [NA, name]
             then Inr (Some preferred_idx) else Inr None)
          else Inl IndexError)"

definition assigned_to_feed_index :: "(string \<times> nat) list \<Rightarrow> 'img feed list \<Rightarrow> string \<Rightarrow> error + nat" where
  "assigned_to_feed_index prefs feeds name =
     (case preferred_step prefs feeds name of
        Inl e \<Rightarrow> Inl e
      | Inr a1 \<Rightarrow>
          let a2 = (case a1 of Some i \<Rightarrow> Some i
                    | None \<Rightarrow> first_feed 0 (\<lambda>i feed. transmitter_name feed = name) feeds);
              a3 = (case a2 of Some i \<Rightarrow> Some i
                    | None \<Rightarrow> first_feed 0 (\<lambda>i feed. transmitter_name feed = NA
                                                  \<and> i \<notin> set (map snd prefs)) feeds);
              a4 = (case a3 of Some i \<Rightarrow> Some i
                    | None \<Rightarrow> first_feed 0 (\<lambda>i feed. transmitter_name feed = NA) feeds)
          in Inr (case a4 of Some i \<Rightarrow> i | None \<Rightarrow> 0))"

text \<open>The whole function: choose the slot, then store the name and the image in it.\<close>

definition update_live_feed_display ::
  "(string \<times> nat) list \<Rightarrow> 'img feed list \<Rightarrow> string \<Rightarrow> 'img \<Rightarrow> error + nat \<times> 'img feed list" where
  "update_live_feed_display prefs feeds name cv2_image =
     (case assigned_to_feed_index prefs feeds name of
        Inl e \<Rightarrow> Inl e
      | Inr k \<Rightarrow>
          if k < length feeds
          then Inr (k, feeds[k := (feeds ! k)\<lparr>transmitter_name := name,
                                             last_image_data := Some cv2_image\<rparr>])
          else Inl IndexError)"

text \<open>A sequence of arrivals: the slots chosen, in order, and the table at the end.\<close>

fun arrivals ::
  "(string \<times> nat) list \<Rightarrow> 'img feed list \<Rightarrow> (string \<times> 'img) list \<Rightarrow> error + nat list \<times> 'img feed list" where
  "arrivals prefs feeds [] = Inr ([], feeds)"
| "arrivals prefs feeds ((name, img) # later) =
     (case update_live_feed_display prefs feeds name img of
        Inl e \<Rightarrow> Inl e
      | Inr (k, feeds') \<Rightarrow>
          (case arrivals prefs feeds' later of
             Inl e \<Rightarrow> Inl e
           | Inr (ks, feeds'') \<Rightarrow> Inr (k # ks, feeds'')))"

section \<open>Connections that deliver a byte stream\<close>

text \<open>
  The bytes a connection carries, and the connections in which every \<open>recv\<close> finds a
  non-empty segment until the peer closes (no timeout).
\<close>

fun payload :: "sock_event \<Rightarrow> bytes" where
  "payload (Data p) = p"
| "payload Timeout = []"

definition stream :: "sock \<Rightarrow> bytes" where
  "stream s = concat (map payload s)"

definition live :: "sock \<Rightarrow> bool" where
  "live s = list_all (\<lambda>e. case e of Data p \<Rightarrow> p \<noteq> [] | Timeout \<Rightarrow> False) s"


section \<open>Properties of the exact-read helper\<close>

lemma recv_length: "recv s k = (Inr p, s') \<Longrightarrow> length p \<le> k"
  by (cases "(s, k)" rule: recv.cases) auto

lemma recv_all_loop_length:
  "recv_all_loop data n s = (Inr (Some d), s') \<Longrightarrow> length data \<le> n \<Longrightarrow> length d = n"
proof (induction data n s arbitrary: d s' rule: recv_all_loop.induct)
  case (1 data n s)
  show ?case
  proof (cases "length data < n")
    case False
    with "1.prems" show ?thesis by simp
  next
    case True
    obtain x s1 where rc: "recv s (n - length data) = (x, s1)"
      by (cases "recv s (n - length data)")
    show ?thesis
    proof (cases x)
      case (Inl e)
      with "1.prems" True rc show ?thesis by (simp add: recv_all_loop_step)
    next
      case (Inr packet)
      have pl: "length packet \<le> n - length data"
        using rc Inr by (auto dest: recv_length)
      show ?thesis
      proof (cases "packet = []")
        case True
        with "1.prems" \<open>length data < n\<close> rc Inr show ?thesis
          by (simp add: recv_all_loop_step)
      next
        case False
        have "recv_all_loop (data @ packet) n s1 = (Inr (Some d), s')"
          using "1.prems" \<open>length data < n\<close> rc Inr False by (simp add: recv_all_loop_step)
        moreover have "length (data @ packet) \<le> n" using pl True by simp
        ultimately show ?thesis
          by (rule "1.IH" [OF \<open>length data < n\<close> rc [symmetric] Inr False])
      qed
    qed
  qed
qed

lemma recv_all_loop_closed:
  "length data + length (concat ps) < n \<Longrightarrow>
   fst (recv_all_loop data n (map Data ps)) = Inr None"
proof (induction ps arbitrary: data)
  case Nil
  then have "length data < n" by simp
  then show ?case by (subst recv_all_loop_step) simp_all
next
  case (Cons p ps)
  have lt: "length data < n" using Cons.prems by simp
  have tk: "take (n - length data) p = p" using Cons.prems by simp
  have le: "length p \<le> n - length data" using Cons.prems by simp
  show ?case
  proof (cases "p = []")
    case True
    then show ?thesis by (subst recv_all_loop_step [OF lt]) simp
  next
    case False
    have "recv_all_loop data n (map Data (p # ps)) = recv_all_loop (data @ p) n (map Data ps)"
      by (subst recv_all_loop_step [OF lt]) (simp add: False tk le)
    moreover have "length (data @ p) + length (concat ps) < n" using Cons.prems by simp
    ultimately show ?thesis using Cons.IH by simp
  qed
qed

lemma recv_all_loop_stream:
  "live s \<Longrightarrow> length data \<le> n \<Longrightarrow> n \<le> length data + length (stream s) \<Longrightarrow>
   \<exists>s'. recv_all_loop data n s = (Inr (Some (data @ take (n - length data) (stream s))), s')
        \<and> live s' \<and> stream s' = drop (n - length data) (stream s)"
proof (induction data n s rule: recv_all_loop.induct)
  case (1 data n s)
  show ?case
  proof (cases "length data < n")
    case False
    with "1.prems" show ?thesis by simp
  next
    case True
    then obtain p s0 where s: "s = Data p # s0" and p: "p \<noteq> []"
      using "1.prems" by (cases s) (auto simp: live_def stream_def split: sock_event.splits)
    define k where "k = n - length data"
    have kpos: "0 < k" and nk: "n = length data + k" using True by (simp_all add: k_def)
    have st: "stream s = p @ stream s0" by (simp add: s stream_def)
    have l0: "live s0" using "1.prems"(1) by (simp add: s live_def)
    show ?thesis
    proof (cases "length p \<le> k")
      case le: True
      have rc: "recv s (n - length data) = (Inr p, s0)"
        using le by (simp add: s k_def)
      have step: "recv_all_loop data n s = recv_all_loop (data @ p) n s0"
        by (subst recv_all_loop_step [OF True]) (simp add: rc p)
      have a: "length (data @ p) \<le> n" using le nk by simp
      have b: "n \<le> length (data @ p) + length (stream s0)"
        using "1.prems"(3) by (simp add: st)
      from "1.IH" [OF True rc [symmetric] refl p l0 a b]
      obtain s' where r: "recv_all_loop (data @ p) n s0 =
            (Inr (Some ((data @ p) @ take (n - length (data @ p)) (stream s0))), s')"
        and l: "live s'" and sd: "stream s' = drop (n - length (data @ p)) (stream s0)"
        by blast
      have k2: "n - length (data @ p) = k - length p" using nk by simp
      have e1: "(data @ p) @ take (n - length (data @ p)) (stream s0)
                 = data @ take (n - length data) (stream s)"
        using le unfolding k2 st k_def [symmetric] by simp
      have e2: "drop (n - length (data @ p)) (stream s0) = drop (n - length data) (stream s)"
        using le unfolding k2 st k_def [symmetric] by simp
      show ?thesis using step r l sd e1 e2 by simp
    next
      case gt: False
      have rc: "recv s (n - length data) = (Inr (take k p), Data (drop k p) # s0)"
        using gt by (simp add: s k_def)
      have ne: "take k p \<noteq> []" using p kpos by (cases p) auto
      have len: "length (data @ take k p) = n" using gt nk by simp
      have step: "recv_all_loop data n s = recv_all_loop (data @ take k p) n (Data (drop k p) # s0)"
        using kpos p by (subst recv_all_loop_step [OF True]) (simp add: rc)
      have fin: "recv_all_loop (data @ take k p) n (Data (drop k p) # s0)
                  = (Inr (Some (data @ take k p)), Data (drop k p) # s0)"
        using len by simp
      have l1: "live (Data (drop k p) # s0)" using l0 gt by (simp add: live_def)
      have e1: "take (n - length data) (stream s) = take k p"
        using gt unfolding st k_def [symmetric] by simp
      have e2: "stream (Data (drop k p) # s0) = drop (n - length data) (stream s)"
        using gt unfolding st k_def [symmetric] by (simp add: stream_def)
      show ?thesis using step fin l1 e1 e2 by simp
    qed
  qed
qed


text \<open>
  Claim C10. For every requested byte count \<open>n\<close>, \<open>_recv_all\<close> returns either exactly
  \<open>n\<close> bytes or \<open>None\<close>: whenever it returns bytes there are exactly \<open>n\<close> of them; when
  the connection closes before \<open>n\<close> bytes have arrived it returns \<open>None\<close> and the bytes
  read so far are not in the result; and on a live connection that carries at least \<open>n\<close>
  bytes it returns the first \<open>n\<close> bytes of the stream.
\<close>

theorem recv_all_exact_or_nothing:
  "(\<forall>d s'. recv_all s n = (Inr (Some d), s') \<longrightarrow> length d = n) \<and>
   (length (concat ps) < n \<longrightarrow> fst (recv_all (map Data ps) n) = Inr None) \<and>
   (live s \<and> n \<le> length (stream s) \<longrightarrow>
      fst (recv_all s n) = Inr (Some (take n (stream s))))"
proof (intro conjI allI impI)
  fix d s'
  assume "recv_all s n = (Inr (Some d), s')"
  then show "length d = n"
    unfolding recv_all_def by (rule recv_all_loop_length) simp
next
  assume "length (concat ps) < n"
  then show "fst (recv_all (map Data ps) n) = Inr None"
    unfolding recv_all_def by (intro recv_all_loop_closed) simp
next
  assume "live s \<and> n \<le> length (stream s)"
  then show "fst (recv_all s n) = Inr (Some (take n (stream s)))"
    using recv_all_loop_stream [of s "[]" n] by (auto simp: recv_all_def)
qed

theorem recv_all_exact_or_nothing_witness:
  "recv_all [Data [1, 2], Data [3, 4]] 3 = (Inr (Some [1, 2, 3]), [Data [4]]) \<and>
   length ([1, 2, 3] :: bytes) = 3 \<and>
   length (concat [[1, 2 :: byte]]) < 3 \<and>
   fst (recv_all (map Data [[1, 2]]) 3) = Inr None \<and>
   live [Data [1, 2], Data [3, 4]] \<and> 3 \<le> length (stream [Data [1, 2], Data [3, 4]]) \<and>
   fst (recv_all [Data [1, 2], Data [3, 4]] 3)
     = Inr (Some (take 3 (stream [Data [1, 2], Data [3, 4]])))"
  using recv_all_exact_or_nothing [of "[Data [1, 2], Data [3, 4]]" 3 "[[1, 2]]"]
  by (simp add: recv_all_def recv_all_loop_step live_def stream_def)

section \<open>Properties of the per-frame step\<close>

lemma length_alist_update:
  "length (AList.update k v al) = (if k \<in> fst ` set al then length al else Suc (length al))"
proof -
  have "length (map fst (AList.update k v al)) =
        (if k \<in> fst ` set al then length al else Suc (length al))"
    by (simp add: update_keys)
  then show ?thesis by simp
qed

lemma process_frame_grid:
  "frame_grid (process_frame st f) =
     AList.update (row_idx f, col_idx f) (frame_chunk f) (frame_grid st)"
  by (simp add: process_frame_def Let_def)

lemma process_frame_received:
  "received (process_frame st f) = length (frame_grid (process_frame st f))"
  by (simp add: process_frame_def Let_def)

lemma process_frame_expected:
  "total_frames_expected (process_frame st f) =
     (if total_frames_expected st = - 1 then int (current_total_frames f)
      else total_frames_expected st)"
  by (simp add: process_frame_def Let_def)

lemma process_frame_max_row:
  "max_row (process_frame st f) = max (max_row st) (int (row_idx f))"
  by (simp add: process_frame_def Let_def)

lemma process_frame_max_col:
  "max_col (process_frame st f) = max (max_col st) (int (col_idx f))"
  by (simp add: process_frame_def Let_def)

lemma process_frame_log:
  "log (process_frame st f) =
     log st @
     (if total_frames_expected st = - 1 then [ExpectingTotal (current_total_frames f)]
      else if total_frames_expected st \<noteq> int (current_total_frames f)
      then [TotalFramesMismatch (total_frames_expected st) (current_total_frames f)
              (row_idx f) (col_idx f)]
      else []) @ [ReceivedFrame (row_idx f) (col_idx f)]"
  by (simp add: process_frame_def Let_def)

text \<open>
  Claim C7. Once \<open>total_frames_expected\<close> has been set by a first frame (it is no longer
  \<open>-1\<close>), processing a frame leaves it unchanged whatever the frame's own total says, and
  leaves every grid entry other than the frame's own \<open>(row, col)\<close> unchanged; a
  disagreeing total only adds the mismatch warning to the log.
\<close>

theorem mismatch_keeps_expected:
  assumes "total_frames_expected st \<noteq> - 1"
  shows "total_frames_expected (process_frame st f) = total_frames_expected st \<and>
         (\<forall>k. k \<noteq> (row_idx f, col_idx f) \<longrightarrow>
              map_of (frame_grid (process_frame st f)) k = map_of (frame_grid st) k) \<and>
         (int (current_total_frames f) \<noteq> total_frames_expected st \<longrightarrow>
            log (process_frame st f) =
              log st @ [TotalFramesMismatch (total_frames_expected st) (current_total_frames f)
                          (row_idx f) (col_idx f),
                        ReceivedFrame (row_idx f) (col_idx f)])"
  using assms
  by (auto simp: process_frame_expected process_frame_grid process_frame_log update_conv')

text \<open>
  Claim C8. Processing a frame whose \<open>(row, col)\<close> is already a key of the grid
  replaces the chunk stored there, changes no other entry and no key, and leaves the
  received count, which is the number of distinct filled positions, where it was.
\<close>

theorem redelivery_keeps_count:
  assumes "(row_idx f, col_idx f) \<in> fst ` set (frame_grid st)"
    and "distinct (map fst (frame_grid st))"
  shows "received (process_frame st f) = length (frame_grid st) \<and>
         received (process_frame st f) = card (fst ` set (frame_grid (process_frame st f))) \<and>
         fst ` set (frame_grid (process_frame st f)) = fst ` set (frame_grid st) \<and>
         map_of (frame_grid (process_frame st f)) (row_idx f, col_idx f) = Some (frame_chunk f) \<and>
         (\<forall>k. k \<noteq> (row_idx f, col_idx f) \<longrightarrow>
              map_of (frame_grid (process_frame st f)) k = map_of (frame_grid st) k)"
proof -
  let ?g = "frame_grid (process_frame st f)"
  have len: "length ?g = length (frame_grid st)"
    using assms(1) by (simp add: process_frame_grid length_alist_update)
  have keys: "fst ` set ?g = fst ` set (frame_grid st)"
    using assms(1) by (auto simp: process_frame_grid dom_update)
  have "distinct (map fst ?g)"
    using assms(2) by (simp add: process_frame_grid distinct_update)
  then have "card (fst ` set ?g) = length ?g"
    using distinct_card [of "map fst ?g"] by simp
  with len keys show ?thesis
    by (simp add: process_frame_received) (simp add: process_frame_grid update_conv')
qed


lemmas frame_eval = process_frame_def init_state_def Let_def row_idx_def col_idx_def
  current_total_frames_def frame_chunk_def frame_header_def expected_header_size_def
  slice_def from_bytes_def

theorem mismatch_keeps_expected_witness:
  "total_frames_expected (process_frame init_state [0,0, 0,0, 0,0, 0,2, 0,0, 65]) \<noteq> - 1 \<and>
   int (current_total_frames [0,1, 0,0, 0,1, 0,3, 0,0, 66])
     \<noteq> total_frames_expected (process_frame init_state [0,0, 0,0, 0,0, 0,2, 0,0, 65]) \<and>
   total_frames_expected
     (process_frame (process_frame init_state [0,0, 0,0, 0,0, 0,2, 0,0, 65])
        [0,1, 0,0, 0,1, 0,3, 0,0, 66]) = 2 \<and>
   map_of (frame_grid
     (process_frame (process_frame init_state [0,0, 0,0, 0,0, 0,2, 0,0, 65])
        [0,1, 0,0, 0,1, 0,3, 0,0, 66])) (0, 0) = Some [65] \<and>
   log (process_frame (process_frame init_state [0,0, 0,0, 0,0, 0,2, 0,0, 65])
        [0,1, 0,0, 0,1, 0,3, 0,0, 66])
     = [ExpectingTotal 2, ReceivedFrame 0 0, TotalFramesMismatch 2 3 0 1, ReceivedFrame 0 1]"
proof -
  have h: "total_frames_expected (process_frame init_state [0,0, 0,0, 0,0, 0,2, 0,0, 65]) \<noteq> - 1"
    by (simp add: frame_eval)
  show ?thesis
    using mismatch_keeps_expected [OF h, of "[0,1, 0,0, 0,1, 0,3, 0,0, 66]"]
    by (simp add: frame_eval)
qed

theorem redelivery_keeps_count_witness:
  "(row_idx [0,7, 0,0, 0,0, 0,2, 0,0, 66], col_idx [0,7, 0,0, 0,0, 0,2, 0,0, 66])
     \<in> fst ` set (frame_grid (process_frame init_state [0,0, 0,0, 0,0, 0,2, 0,0, 65])) \<and>
   distinct (map fst (frame_grid (process_frame init_state [0,0, 0,0, 0,0, 0,2, 0,0, 65]))) \<and>
   received (process_frame (process_frame init_state [0,0, 0,0, 0,0, 0,2, 0,0, 65])
               [0,7, 0,0, 0,0, 0,2, 0,0, 66]) = 1 \<and>
   frame_grid (process_frame (process_frame init_state [0,0, 0,0, 0,0, 0,2, 0,0, 65])
               [0,7, 0,0, 0,0, 0,2, 0,0, 66]) = [((0, 0), [66])]"
proof -
  have h1: "(row_idx [0,7, 0,0, 0,0, 0,2, 0,0, 66], col_idx [0,7, 0,0, 0,0, 0,2, 0,0, 66])
     \<in> fst ` set (frame_grid (process_frame init_state [0,0, 0,0, 0,0, 0,2, 0,0, 65]))"
    by (simp add: frame_eval)
  have h2: "distinct (map fst (frame_grid (process_frame init_state [0,0, 0,0, 0,0, 0,2, 0,0, 65])))"
    by (simp add: frame_eval)
  show ?thesis
    using redelivery_keeps_count [OF h1 h2] h1 h2
    by (simp add: frame_eval)
qed

section \<open>The slot precedence as the specification words it\<close>

text \<open>
  The five rules of the assignment policy, stated on the table and not on the loops of the
  code: a slot is unassigned when its name is \<open>'N/A'\<close>, an identity holds a slot when the
  slot carries its name, and "the first" slot with a property is the one of least index.
\<close>

definition unassigned :: "'img feed list \<Rightarrow> nat \<Rightarrow> bool" where
  "unassigned feeds i = (i < length feeds \<and> transmitter_name (feeds ! i) = NA)"

definition holds_slot :: "'img feed list \<Rightarrow> string \<Rightarrow> nat \<Rightarrow> bool" where
  "holds_slot feeds name i = (i < length feeds \<and> transmitter_name (feeds ! i) = name)"

definition first_such :: "(nat \<Rightarrow> bool) \<Rightarrow> nat \<Rightarrow> bool" where
  "first_such P k = (P k \<and> (\<forall>j<k. \<not> P j))"

definition reserved_for_other :: "(string \<times> nat) list \<Rightarrow> string \<Rightarrow> nat \<Rightarrow> bool" where
  "reserved_for_other prefs name i = (\<exists>other. other \<noteq> name \<and> map_of prefs other = Some i)"

definition spec_slot_choice ::
  "(string \<times> nat) list \<Rightarrow> 'img feed list \<Rightarrow> string \<Rightarrow> nat \<Rightarrow> bool" where
  "spec_slot_choice prefs feeds name k =
     (if \<exists>p. map_of prefs name = Some p \<and> (unassigned feeds p \<or> holds_slot feeds name p)
      then map_of prefs name = Some k
      else if \<exists>i. holds_slot feeds name i
      then first_such (holds_slot feeds name) k
      else if \<exists>i. unassigned feeds i \<and> \<not> reserved_for_other prefs name i
      then first_such (\<lambda>i. unassigned feeds i \<and> \<not> reserved_for_other prefs name i) k
      else if \<exists>i. unassigned feeds i
      then first_such (unassigned feeds) k
      else k = 0)"

section \<open>Properties of the slot assignment\<close>

lemma first_feed_None:
  "first_feed i P xs = None \<longleftrightarrow> (\<forall>j<length xs. \<not> P (i + j) (xs ! j))"
proof (induction xs arbitrary: i)
  case Nil
  show ?case by simp
next
  case (Cons x xs)
  show ?case
    by (simp add: Cons.IH All_less_Suc2)
qed

lemma first_feed_Some:
  "first_feed i P xs = Some k \<longleftrightarrow>
     (i \<le> k \<and> k < i + length xs \<and> P k (xs ! (k - i)) \<and> (\<forall>j<k - i. \<not> P (i + j) (xs ! j)))"
proof (induction xs arbitrary: i)
  case Nil
  show ?case by simp
next
  case (Cons x xs)
  show ?case
  proof (cases "P i x")
    case True
    show ?thesis
    proof
      assume "first_feed i P (x # xs) = Some k"
      with True show "i \<le> k \<and> k < i + length (x # xs) \<and> P k ((x # xs) ! (k - i)) \<and>
          (\<forall>j<k - i. \<not> P (i + j) ((x # xs) ! j))"
        by auto
    next
      assume a: "i \<le> k \<and> k < i + length (x # xs) \<and> P k ((x # xs) ! (k - i)) \<and>
          (\<forall>j<k - i. \<not> P (i + j) ((x # xs) ! j))"
      have "k = i"
      proof (rule ccontr)
        assume "k \<noteq> i"
        with a have "0 < k - i" by simp
        with a have "\<not> P (i + 0) ((x # xs) ! 0)" by blast
        with True show False by simp
      qed
      with True show "first_feed i P (x # xs) = Some k" by simp
    qed
  next
    case False
    have "first_feed i P (x # xs) = Some k \<longleftrightarrow> first_feed (Suc i) P xs = Some k"
      using False by simp
    also have "\<dots> \<longleftrightarrow> (Suc i \<le> k \<and> k < Suc i + length xs \<and> P k (xs ! (k - Suc i)) \<and>
          (\<forall>j<k - Suc i. \<not> P (Suc i + j) (xs ! j)))"
      by (rule Cons.IH)
    also have "\<dots> \<longleftrightarrow> (i \<le> k \<and> k < i + length (x # xs) \<and> P k ((x # xs) ! (k - i)) \<and>
          (\<forall>j<k - i. \<not> P (i + j) ((x # xs) ! j)))"
    proof (cases "k = i")
      case True
      with False show ?thesis by simp
    next
      case ne: False
      show ?thesis
      proof (cases "i \<le> k")
        case False
        then show ?thesis by simp
      next
        case True
        with ne obtain d where k: "k = Suc (i + d)"
          by (metis le_neq_implies_less less_imp_Suc_add)
        show ?thesis using False by (simp add: k All_less_Suc2)
      qed
    qed
    finally show ?thesis .
  qed
qed


lemma first_feed0_Some:
  "first_feed 0 P xs = Some k \<longleftrightarrow> first_such (\<lambda>i. i < length xs \<and> P i (xs ! i)) k"
  using first_feed_Some [of 0 P xs k] by (auto simp: first_such_def)

lemma first_feed0_None:
  "first_feed 0 P xs = None \<longleftrightarrow> \<not> (\<exists>i. i < length xs \<and> P i (xs ! i))"
  using first_feed_None [of 0 P xs] by auto

lemma first_feed0_cases:
  "(first_feed 0 P xs = None \<and> \<not> (\<exists>i. i < length xs \<and> P i (xs ! i))) \<or>
   (\<exists>k. first_feed 0 P xs = Some k \<and> k < length xs \<and>
        first_such (\<lambda>i. i < length xs \<and> P i (xs ! i)) k)"
proof (cases "first_feed 0 P xs")
  case None
  then show ?thesis by (simp add: first_feed0_None)
next
  case (Some k)
  then have "first_such (\<lambda>i. i < length xs \<and> P i (xs ! i)) k"
    by (simp add: first_feed0_Some)
  with Some show ?thesis by (auto simp: first_such_def)
qed

lemma assigned_index_meets_spec:
  assumes ne: "feeds \<noteq> []"
    and rng: "\<forall>p \<in> snd ` set prefs. p < length feeds"
    and dk: "distinct (map fst prefs)"
  shows "\<exists>k. assigned_to_feed_index prefs feeds name = Inr k \<and> k < length feeds \<and>
             spec_slot_choice prefs feeds name k"
proof (cases "\<exists>p. map_of prefs name = Some p \<and> (unassigned feeds p \<or> holds_slot feeds name p)")
  case True
  then obtain p where p: "map_of prefs name = Some p"
    and ok: "unassigned feeds p \<or> holds_slot feeds name p" by blast
  have pl: "p < length feeds" using ok by (auto simp: unassigned_def holds_slot_def)
  have "preferred_step prefs feeds name = Inr (Some p)"
    using p ok pl by (auto simp: preferred_step_def unassigned_def holds_slot_def)
  then have "assigned_to_feed_index prefs feeds name = Inr p"
    by (simp add: assigned_to_feed_index_def)
  moreover have "spec_slot_choice prefs feeds name p"
    using True p by (simp add: spec_slot_choice_def)
  ultimately show ?thesis using pl by blast
next
  case nopref: False
  have ps: "preferred_step prefs feeds name = Inr None"
  proof (cases "map_of prefs name")
    case None
    then show ?thesis by (simp add: preferred_step_def)
  next
    case (Some p)
    then have "(name, p) \<in> set prefs" by (rule map_of_SomeD)
    then have pl: "p < length feeds" using rng by force
    with nopref Some have "transmitter_name (feeds ! p) \<noteq> NA \<and> transmitter_name (feeds ! p) \<noteq> name"
      by (auto simp: unassigned_def holds_slot_def)
    with Some pl show ?thesis by (simp add: preferred_step_def)
  qed
  let ?P2 = "\<lambda>(i::nat) feed. transmitter_name feed = name"
  let ?P3 = "\<lambda>i feed. transmitter_name feed = NA \<and> i \<notin> set (map snd prefs)"
  let ?P4 = "\<lambda>(i::nat) feed. transmitter_name feed = NA"
  have h2: "(\<lambda>i. i < length feeds \<and> ?P2 i (feeds ! i)) = holds_slot feeds name"
    by (auto simp: holds_slot_def fun_eq_iff)
  have h4: "(\<lambda>i. i < length feeds \<and> ?P4 i (feeds ! i)) = unassigned feeds"
    by (auto simp: unassigned_def fun_eq_iff)
  have h3: "(\<lambda>i. i < length feeds \<and> ?P3 i (feeds ! i))
            = (\<lambda>i. unassigned feeds i \<and> \<not> reserved_for_other prefs name i)"
  proof (rule ext)
    fix i
    show "(i < length feeds \<and> ?P3 i (feeds ! i))
          = (unassigned feeds i \<and> \<not> reserved_for_other prefs name i)"
    proof (cases "unassigned feeds i")
      case False
      then show ?thesis by (auto simp: unassigned_def)
    next
      case un: True
      have "i \<in> snd ` set prefs \<longleftrightarrow> reserved_for_other prefs name i"
      proof
        assume "i \<in> snd ` set prefs"
        then obtain n where n: "(n, i) \<in> set prefs" by force
        then have m: "map_of prefs n = Some i" using dk by simp
        have "n \<noteq> name" using nopref m un by auto
        with m show "reserved_for_other prefs name i" by (auto simp: reserved_for_other_def)
      next
        assume "reserved_for_other prefs name i"
        then obtain other where "map_of prefs other = Some i"
          by (auto simp: reserved_for_other_def)
        then have "(other, i) \<in> set prefs" by (rule map_of_SomeD)
        then show "i \<in> snd ` set prefs" by force
      qed
      with un show ?thesis by (auto simp: unassigned_def)
    qed
  qed
  note c2 = first_feed0_cases [of ?P2 feeds, unfolded h2]
  note c3 = first_feed0_cases [of ?P3 feeds, unfolded h3]
  note c4 = first_feed0_cases [of ?P4 feeds, unfolded h4]
  have unf: "assigned_to_feed_index prefs feeds name =
      Inr (case (case (case first_feed 0 ?P2 feeds of Some i \<Rightarrow> Some i
                        | None \<Rightarrow> first_feed 0 ?P3 feeds) of Some i \<Rightarrow> Some i
                  | None \<Rightarrow> first_feed 0 ?P4 feeds) of Some i \<Rightarrow> i | None \<Rightarrow> 0)"
    by (simp add: assigned_to_feed_index_def ps Let_def)
  have len0: "0 < length feeds" using ne by simp
  from c2 show ?thesis
  proof (elim disjE conjE exE)
    fix k
    assume "first_feed 0 ?P2 feeds = Some k" "k < length feeds"
      "first_such (holds_slot feeds name) k"
    then show ?thesis
      using nopref unf by (auto simp: spec_slot_choice_def first_such_def)
  next
    assume n2: "first_feed 0 ?P2 feeds = None" "\<not> (\<exists>i. holds_slot feeds name i)"
    from c3 show ?thesis
    proof (elim disjE conjE exE)
      fix k
      assume "first_feed 0 ?P3 feeds = Some k" "k < length feeds"
        "first_such (\<lambda>i. unassigned feeds i \<and> \<not> reserved_for_other prefs name i) k"
      then show ?thesis
        using nopref n2 unf by (auto simp: spec_slot_choice_def first_such_def)
    next
      assume n3: "first_feed 0 ?P3 feeds = None"
        "\<not> (\<exists>i. unassigned feeds i \<and> \<not> reserved_for_other prefs name i)"
      from c4 show ?thesis
      proof (elim disjE conjE exE)
        fix k
        assume "first_feed 0 ?P4 feeds = Some k" "k < length feeds"
          "first_such (unassigned feeds) k"
        then show ?thesis
          using nopref n2 n3 unf by (auto simp: spec_slot_choice_def first_such_def)
      next
        assume n4: "first_feed 0 ?P4 feeds = None" "\<not> (\<exists>i. unassigned feeds i)"
        then show ?thesis
          using nopref n2 n3 unf len0 by (auto simp: spec_slot_choice_def)
      qed
    qed
  qed
qed


lemmas slot_eval = update_live_feed_display_def assigned_to_feed_index_def preferred_step_def
  initial_feeds_def empty_feed_def NA_def Let_def

text \<open>
  Claim C3. For a non-empty table and preferred indices inside it, the slot chosen by
  \<open>_update_live_feed_display\<close> follows the strict precedence: the preferred slot when it is
  unassigned or already the identity's own, else the slot the identity holds, else the first
  unassigned slot that is not another identity's preferred slot, else the first unassigned
  slot, else slot 0; the name and image are stored in the chosen slot. With four unassigned
  slots and preferences \<open>{A: 0, B: 1}\<close>, arrivals A, B, C, D, E get slots 0, 1, 2, 3, 0.
\<close>

theorem slot_precedence:
  "(feeds \<noteq> [] \<and> (\<forall>p \<in> snd ` set prefs. p < length feeds) \<and> distinct (map fst prefs) \<longrightarrow>
      (\<exists>k. assigned_to_feed_index prefs feeds name = Inr k \<and> k < length feeds \<and>
           spec_slot_choice prefs feeds name k \<and>
           update_live_feed_display prefs feeds name img =
             Inr (k, feeds[k := (feeds ! k)\<lparr>transmitter_name := name,
                                              last_image_data := Some img\<rparr>]))) \<and>
   (case arrivals [(''A'', 0), (''B'', 1)] initial_feeds
           [(''A'', a), (''B'', b), (''C'', c), (''D'', d), (''E'', e)] of
      Inl err \<Rightarrow> False
    | Inr (ks, table) \<Rightarrow>
        ks = [0, 1, 2, 3, 0] \<and> map transmitter_name table = [''E'', ''B'', ''C'', ''D''])"
proof (intro conjI impI)
  assume h: "feeds \<noteq> [] \<and> (\<forall>p \<in> snd ` set prefs. p < length feeds) \<and> distinct (map fst prefs)"
  then obtain k where k: "assigned_to_feed_index prefs feeds name = Inr k" "k < length feeds"
      "spec_slot_choice prefs feeds name k"
    using assigned_index_meets_spec [of feeds prefs name] by blast
  then have "update_live_feed_display prefs feeds name img =
             Inr (k, feeds[k := (feeds ! k)\<lparr>transmitter_name := name,
                                              last_image_data := Some img\<rparr>])"
    by (simp add: update_live_feed_display_def)
  with k show "\<exists>k. assigned_to_feed_index prefs feeds name = Inr k \<and> k < length feeds \<and>
           spec_slot_choice prefs feeds name k \<and>
           update_live_feed_display prefs feeds name img =
             Inr (k, feeds[k := (feeds ! k)\<lparr>transmitter_name := name,
                                              last_image_data := Some img\<rparr>])"
    by blast
next
  show "case arrivals [(''A'', 0), (''B'', 1)] initial_feeds
           [(''A'', a), (''B'', b), (''C'', c), (''D'', d), (''E'', e)] of
      Inl err \<Rightarrow> False
    | Inr (ks, table) \<Rightarrow>
        ks = [0, 1, 2, 3, 0] \<and> map transmitter_name table = [''E'', ''B'', ''C'', ''D'']"
    by (simp add: slot_eval)
qed

theorem slot_precedence_witness:
  "(initial_feeds :: nat feed list) \<noteq> [] \<and>
   0 < length (initial_feeds :: nat feed list) \<and> 1 < length (initial_feeds :: nat feed list) \<and>
   distinct (map fst [(''A'', 0 :: nat), (''B'', 1)]) \<and>
   assigned_to_feed_index [(''A'', 0), (''B'', 1)] (initial_feeds :: nat feed list) ''C'' = Inr 2 \<and>
   2 < length (initial_feeds :: nat feed list) \<and>
   update_live_feed_display [(''A'', 0), (''B'', 1)] (initial_feeds :: nat feed list) ''C'' 7
     = Inr (2, initial_feeds[2 := (initial_feeds ! 2)\<lparr>transmitter_name := ''C'',
                                                      last_image_data := Some 7\<rparr>])"
proof -
  have l: "0 < length (initial_feeds :: nat feed list)" "1 < length (initial_feeds :: nat feed list)"
    by (simp_all add: initial_feeds_def)
  have h: "(initial_feeds :: nat feed list) \<noteq> [] \<and>
     (\<forall>p \<in> snd ` set [(''A'', 0), (''B'', 1)]. p < length (initial_feeds :: nat feed list)) \<and>
     distinct (map fst [(''A'', 0 :: nat), (''B'', 1)])"
    using l by (simp add: initial_feeds_def)
  have e: "assigned_to_feed_index [(''A'', 0), (''B'', 1)] (initial_feeds :: nat feed list) ''C''
           = Inr 2"
    by (simp add: slot_eval)
  from slot_precedence [of initial_feeds "[(''A'', 0), (''B'', 1)]" "''C''" "7 :: nat" 1 2 3 4 5] h
  obtain k where k: "assigned_to_feed_index [(''A'', 0), (''B'', 1)] (initial_feeds :: nat feed list) ''C''
           = Inr k" "k < length (initial_feeds :: nat feed list)"
    "update_live_feed_display [(''A'', 0), (''B'', 1)] (initial_feeds :: nat feed list) ''C'' 7
       = Inr (k, initial_feeds[k := (initial_feeds ! k)\<lparr>transmitter_name := ''C'',
                                                        last_image_data := Some 7\<rparr>])"
    by blast
  from k(1) e have "k = 2" by simp
  with k h l e show ?thesis by simp
qed

text \<open>
  The table invariant: two distinct slots never carry the same identity. A slot named
  \<open>'N/A'\<close> carries none.
\<close>

definition one_slot_per_identity :: "'img feed list \<Rightarrow> bool" where
  "one_slot_per_identity feeds =
     distinct (filter (\<lambda>name. name \<noteq> NA) (map transmitter_name feeds))"

text \<open>
  Claim C9. The invariant "no identity is the assigned identity of two slots" is what the
  code intends (its comment on the last-resort branch speaks of slots "occupied by distinct
  transmitters"), but a transmitter that names itself \<open>'N/A'\<close> breaks it: with the table and
  the preferences of the code, the arrivals C, D, E, Tx1, N/A, Tx1 choose slots
  2, 3, 0, 1, 0, 0 and leave Tx1 in slots 0 and 1.
\<close>

theorem sentinel_name_duplicates_identity:
  "(case arrivals preferred_assignments initial_feeds
           [(''C'', a), (''D'', b), (''E'', c), (''Tx1'', d), (''N/A'', e), (''Tx1'', f)] of
      Inl err \<Rightarrow> False
    | Inr (ks, table) \<Rightarrow>
        ks = [2, 3, 0, 1, 0, 0] \<and>
        map transmitter_name table = [''Tx1'', ''Tx1'', ''C'', ''D''] \<and>
        \<not> one_slot_per_identity table) \<and>
   one_slot_per_identity (initial_feeds :: 'a feed list)"
  by (simp add: slot_eval preferred_assignments_def one_slot_per_identity_def)

section \<open>Properties of the chunk splitter\<close>

text \<open>The payload of frame \<open>i\<close> for chunk size \<open>n\<close>: the slice of the file, zero-padded.\<close>

definition padded_chunk :: "bytes \<Rightarrow> nat \<Rightarrow> nat \<Rightarrow> bytes" where
  "padded_chunk file_bytes n i =
     slice file_bytes (i * n) ((i + 1) * n)
       @ replicate (n - length (slice file_bytes (i * n) ((i + 1) * n))) 0"

text \<open>The number of frames: \<open>(len(file_bytes) + chunk_size - 1) // chunk_size\<close>.\<close>

definition total_frames_of :: "nat \<Rightarrow> nat \<Rightarrow> nat" where
  "total_frames_of len n = (len + n - 1) div n"

text \<open>The ten header bytes the splitter writes for index \<open>i\<close>, \<open>c\<close> columns and \<open>t\<close> frames.\<close>

definition header_bytes :: "nat \<Rightarrow> nat \<Rightarrow> nat \<Rightarrow> bytes" where
  "header_bytes i c t =
     [of_nat (i div 256), of_nat (i mod 256),
      of_nat (i div c div 256), of_nat (i div c mod 256),
      of_nat (i mod c div 256), of_nat (i mod c mod 256),
      of_nat (t div 256), of_nat (t mod 256), 0, 0]"

lemma unat_byte_of_int: "0 \<le> x \<Longrightarrow> x < 256 \<Longrightarrow> unat (of_int x :: byte) = nat x"
  by (simp add: unsigned_of_int take_bit_int_eq_self)

lemma from_bytes_pair: "from_bytes [a, b] = unat a * 256 + unat b"
  by (simp add: from_bytes_def)

lemma from_bytes_to_bytes2:
  assumes "0 \<le> i" "i < 65536"
  shows "from_bytes [of_int (i div 256), of_int (i mod 256)] = nat i"
proof -
  have a: "unat (of_int (i div 256) :: byte) = nat (i div 256)"
    using assms by (intro unat_byte_of_int) auto
  have b: "unat (of_int (i mod 256) :: byte) = nat (i mod 256)"
    using assms by (intro unat_byte_of_int) auto
  have "nat (i div 256) * 256 + nat (i mod 256) = nat i"
    using assms by (simp add: nat_div_distrib nat_mod_distrib)
  then show ?thesis by (simp add: from_bytes_pair a b)
qed


lemma to_bytes2_nat:
  "n < 65536 \<Longrightarrow> to_bytes2 (int n) = Inr [of_nat (n div 256), of_nat (n mod 256)]"
proof -
  assume n: "n < 65536"
  have "int n div 256 = int (n div 256)" "int n mod 256 = int (n mod 256)"
    by (simp_all add: zdiv_int zmod_int)
  then show ?thesis using n by (simp add: to_bytes2_def)
qed

lemma from_bytes_of_nat:
  assumes "n < 65536"
  shows "from_bytes [of_nat (n div 256), of_nat (n mod 256)] = n"
proof -
  have "from_bytes [of_int (int n div 256), of_int (int n mod 256)] = nat (int n)"
    using assms by (intro from_bytes_to_bytes2) auto
  moreover have "int n div 256 = int (n div 256)" "int n mod 256 = int (n mod 256)"
    by (simp_all add: zdiv_int zmod_int)
  ultimately show ?thesis by simp
qed

lemma make_frame_ok:
  assumes cs: "0 < cs" and c: "0 < c" and i: "i < t" and t: "t \<le> 65535"
  shows "make_frame file_bytes (int cs) (int c) (int t) i
         = Inr (header_bytes i c t @ padded_chunk file_bytes cs i)"
proof -
  have b0: "to_bytes2 (int i) = Inr [of_nat (i div 256), of_nat (i mod 256)]"
    using i t by (intro to_bytes2_nat) simp
  have "i div c \<le> i" by (rule div_le_dividend)
  then have dle: "i div c < 65536" using i t by linarith
  have "i mod c \<le> i" by (rule mod_less_eq_dividend)
  then have mle: "i mod c < 65536" using i t by linarith
  have b1: "to_bytes2 (int i div int c) = Inr [of_nat (i div c div 256), of_nat (i div c mod 256)]"
    using to_bytes2_nat [OF dle] by (simp add: zdiv_int)
  have b2: "to_bytes2 (int i mod int c) = Inr [of_nat (i mod c div 256), of_nat (i mod c mod 256)]"
    using to_bytes2_nat [OF mle] by (simp add: zmod_int)
  have b3: "to_bytes2 (int t) = Inr [of_nat (t div 256), of_nat (t mod 256)]"
    using t by (intro to_bytes2_nat) simp
  have s1: "nat (int i * int cs) = i * cs"
    by (simp add: nat_mult_distrib)
  have s2: "nat ((int i + 1) * int cs) = (i + 1) * cs"
  proof -
    have "(int i + 1) * int cs = int ((i + 1) * cs)" by (simp add: algebra_simps)
    then show ?thesis by (simp only: nat_int)
  qed
  have s3: "nat (int cs - int (length (slice file_bytes (i * cs) ((i + 1) * cs))))
            = cs - length (slice file_bytes (i * cs) ((i + 1) * cs))"
    by simp
  show ?thesis
    unfolding make_frame_def Let_def s1 s2 s3 b0 b1 b2 b3
    using c by (simp add: header_bytes_def padded_chunk_def)
qed

lemma frames_loop_map:
  "(\<And>i. i \<in> set idxs \<Longrightarrow> make_frame file_bytes cs c t i = Inr (F i)) \<Longrightarrow>
   frames_loop file_bytes cs c t idxs = Inr (map F idxs)"
  by (induction idxs) simp_all

lemma length_padded_chunk: "length (padded_chunk file_bytes n i) = n"
  by (simp add: padded_chunk_def slice_def)

lemma header_fields:
  assumes "i < t" "t \<le> 65535" "0 < c"
  shows "frame_idx (header_bytes i c t @ chunk) = i"
    and "row_idx (header_bytes i c t @ chunk) = i div c"
    and "col_idx (header_bytes i c t @ chunk) = i mod c"
    and "current_total_frames (header_bytes i c t @ chunk) = t"
    and "frame_chunk (header_bytes i c t @ chunk) = chunk"
proof -
  have "i div c \<le> i" by (rule div_le_dividend)
  then have dle: "i div c < 65536" using assms by linarith
  have "i mod c \<le> i" by (rule mod_less_eq_dividend)
  then have mle: "i mod c < 65536" using assms by linarith
  show "frame_idx (header_bytes i c t @ chunk) = i"
    using assms from_bytes_of_nat [of i]
    by (simp add: frame_idx_def frame_header_def expected_header_size_def header_bytes_def slice_def)
  show "row_idx (header_bytes i c t @ chunk) = i div c"
    using from_bytes_of_nat [OF dle]
    by (simp add: row_idx_def frame_header_def expected_header_size_def header_bytes_def slice_def)
  show "col_idx (header_bytes i c t @ chunk) = i mod c"
    using from_bytes_of_nat [OF mle]
    by (simp add: col_idx_def frame_header_def expected_header_size_def header_bytes_def slice_def)
  show "current_total_frames (header_bytes i c t @ chunk) = t"
    using assms from_bytes_of_nat [of t]
    by (simp add: current_total_frames_def frame_header_def expected_header_size_def
        header_bytes_def slice_def)
  show "frame_chunk (header_bytes i c t @ chunk) = chunk"
    by (simp add: frame_chunk_def expected_header_size_def header_bytes_def)
qed


lemma total_frames_ceil:
  assumes "0 < n"
  shows "len \<le> total_frames_of len n * n" and "total_frames_of len n * n < len + n"
proof -
  define m where "m = len + n - 1"
  have t: "total_frames_of len n = m div n" by (simp add: total_frames_of_def m_def)
  have d: "m = (m div n) * n + m mod n" by simp
  have r: "m mod n < n" using assms by simp
  have m1: "m < len + n" and m2: "len + n \<le> Suc m" using assms by (simp_all add: m_def)
  have "m < (m div n) * n + n" using d r by linarith
  with m2 show "len \<le> total_frames_of len n * n" unfolding t by linarith
  have "(m div n) * n \<le> m" by simp
  with m1 show "total_frames_of len n * n < len + n" unfolding t by linarith
qed

lemma to_bytes2_Inl: "to_bytes2 x = Inl e \<Longrightarrow> e = OverflowError"
  by (simp add: to_bytes2_def split: if_splits)

lemma make_frame_errors:
  assumes "make_frame file_bytes cs c t i = Inl e"
  shows "e = OverflowError \<or> e = ZeroDivisionError"
proof (cases "c = 0")
  case True
  with assms show ?thesis by (simp add: make_frame_def Let_def)
next
  case c: False
  show ?thesis
  proof (cases "to_bytes2 (int i)")
    case (Inl x)
    with assms c show ?thesis by (auto simp: make_frame_def Let_def dest: to_bytes2_Inl)
  next
    case b0: (Inr b0)
    show ?thesis
    proof (cases "to_bytes2 (int i div c)")
      case (Inl x)
      with assms c b0 show ?thesis by (auto simp: make_frame_def Let_def dest: to_bytes2_Inl)
    next
      case b1: (Inr b1)
      show ?thesis
      proof (cases "to_bytes2 (int i mod c)")
        case (Inl x)
        with assms c b0 b1 show ?thesis
          by (auto simp: make_frame_def Let_def dest: to_bytes2_Inl)
      next
        case b2: (Inr b2)
        show ?thesis
        proof (cases "to_bytes2 t")
          case (Inl x)
          with assms c b0 b1 b2 show ?thesis
            by (auto simp: make_frame_def Let_def dest: to_bytes2_Inl)
        next
          case (Inr b3)
          with assms c b0 b1 b2 show ?thesis by (simp add: make_frame_def Let_def)
        qed
      qed
    qed
  qed
qed

lemma frames_loop_errors:
  "frames_loop file_bytes cs c t idxs = Inl e \<Longrightarrow> e = OverflowError \<or> e = ZeroDivisionError"
proof (induction idxs)
  case Nil
  then show ?case by simp
next
  case (Cons i idxs)
  show ?case
  proof (cases "make_frame file_bytes cs c t i")
    case (Inl x)
    with Cons.prems have "x = e" by simp
    with Inl show ?thesis by (auto dest: make_frame_errors)
  next
    case (Inr f)
    with Cons.prems have "frames_loop file_bytes cs c t idxs = Inl e"
      by (simp split: sum.splits)
    then show ?thesis by (rule Cons.IH)
  qed
qed

lemma generate_unfold:
  assumes "0 < fsz - header_size"
  shows "generate_frames_from_file file_bytes fsz c =
         frames_loop file_bytes (int (nat (fsz - header_size))) c
           (int (total_frames_of (length file_bytes) (nat (fsz - header_size))))
           [0..<total_frames_of (length file_bytes) (nat (fsz - header_size))]"
proof -
  define n where "n = nat (fsz - header_size)"
  define L where "L = length file_bytes"
  have n: "0 < n" and fn: "fsz - header_size = int n" using assms by (simp_all add: n_def)
  have e: "int L + int n - 1 = int (L + n - 1)"
    using n by linarith
  have t: "(int L + int n - 1) div int n = int (total_frames_of L n)"
    unfolding e total_frames_of_def by (rule zdiv_int [symmetric])
  have pos: "\<not> int n \<le> 0" using n by simp
  have "generate_frames_from_file file_bytes fsz c =
        frames_loop file_bytes (int n) c (int (total_frames_of L n)) [0..<total_frames_of L n]"
    unfolding generate_frames_from_file_def Let_def fn L_def [symmetric] t
    using pos by simp
  then show ?thesis by (simp add: n_def L_def)
qed

lemma generate_ok:
  assumes "0 < fsz - header_size" and "0 < c"
    and "total_frames_of (length file_bytes) (nat (fsz - header_size)) \<le> 65535"
  shows "generate_frames_from_file file_bytes fsz (int c) =
         Inr (map (\<lambda>i. header_bytes i c (total_frames_of (length file_bytes) (nat (fsz - header_size)))
                        @ padded_chunk file_bytes (nat (fsz - header_size)) i)
                  [0..<total_frames_of (length file_bytes) (nat (fsz - header_size))])"
proof -
  define n where "n = nat (fsz - header_size)"
  define t where "t = total_frames_of (length file_bytes) n"
  have n: "0 < n" using assms(1) by (simp add: n_def)
  have "frames_loop file_bytes (int n) (int c) (int t) [0..<t]
        = Inr (map (\<lambda>i. header_bytes i c t @ padded_chunk file_bytes n i) [0..<t])"
  proof (rule frames_loop_map)
    fix i assume "i \<in> set [0..<t]"
    then have "i < t" by simp
    then show "make_frame file_bytes (int n) (int c) (int t) i
               = Inr (header_bytes i c t @ padded_chunk file_bytes n i)"
      using n assms(2,3) by (intro make_frame_ok) (simp_all add: t_def n_def)
  qed
  then show ?thesis
    using generate_unfold [OF assms(1), of file_bytes "int c"]
    by (simp add: n_def t_def)
qed

lemma generate_overflow:
  assumes "0 < fsz - header_size" and "0 < c"
    and "65535 < total_frames_of (length file_bytes) (nat (fsz - header_size))"
  shows "generate_frames_from_file file_bytes fsz (int c) = Inl OverflowError"
proof -
  define n where "n = nat (fsz - header_size)"
  define t where "t = total_frames_of (length file_bytes) n"
  have t: "65535 < t" using assms(3) by (simp add: t_def n_def)
  then have u: "[0..<t] = 0 # [Suc 0..<t]" by (intro upt_conv_Cons) simp
  have "to_bytes2 (int t) = Inl OverflowError" using t by (simp add: to_bytes2_def)
  then have "make_frame file_bytes (int n) (int c) (int t) 0 = Inl OverflowError"
    using assms(2) by (simp add: make_frame_def Let_def to_bytes2_def)
  then have "frames_loop file_bytes (int n) (int c) (int t) [0..<t] = Inl OverflowError"
    by (simp add: u)
  then show ?thesis
    using generate_unfold [OF assms(1), of file_bytes "int c"]
    by (simp add: n_def t_def)
qed

text \<open>
  Claim C6 (amended). The splitter fails with the configuration error exactly when
  \<open>frame_size - 10\<close> is not positive. Otherwise, for a column count of at least 1 and as
  long as the number of frames \<open>ceil(len / chunk_size)\<close> fits the 16-bit header fields
  (at most 65535), it produces that many frames, each exactly \<open>frame_size\<close> bytes, frame
  \<open>i\<close> carrying the index \<open>i\<close>, the position \<open>(i div C, i mod C)\<close>, the frame count, and
  the \<open>i\<close>-th chunk zero-padded to the chunk size. With more frames than 65535 the
  encoding of the header raises OverflowError and no frame is produced.
\<close>

theorem splitter_contract:
  "(generate_frames_from_file file_bytes frame_size ncols = Inl ConfigurationError
      \<longleftrightarrow> frame_size - header_size \<le> 0) \<and>
   (0 < frame_size - header_size \<and> 0 < c \<and>
    total_frames_of (length file_bytes) (nat (frame_size - header_size)) \<le> 65535 \<longrightarrow>
      (\<exists>frames. generate_frames_from_file file_bytes frame_size (int c) = Inr frames \<and>
         length frames = total_frames_of (length file_bytes) (nat (frame_size - header_size)) \<and>
         length file_bytes \<le> length frames * nat (frame_size - header_size) \<and>
         length frames * nat (frame_size - header_size)
           < length file_bytes + nat (frame_size - header_size) \<and>
         (\<forall>i<length frames.
            length (frames ! i) = nat frame_size \<and>
            frame_idx (frames ! i) = i \<and>
            row_idx (frames ! i) = i div c \<and>
            col_idx (frames ! i) = i mod c \<and>
            current_total_frames (frames ! i) = length frames \<and>
            frame_chunk (frames ! i)
              = padded_chunk file_bytes (nat (frame_size - header_size)) i \<and>
            length (frame_chunk (frames ! i)) = nat (frame_size - header_size)))) \<and>
   (0 < frame_size - header_size \<and> 0 < c \<and>
    65535 < total_frames_of (length file_bytes) (nat (frame_size - header_size)) \<longrightarrow>
      generate_frames_from_file file_bytes frame_size (int c) = Inl OverflowError)"
proof (intro conjI impI)
  show "generate_frames_from_file file_bytes frame_size ncols = Inl ConfigurationError
      \<longleftrightarrow> frame_size - header_size \<le> 0"
  proof (cases "frame_size - header_size \<le> 0")
    case True
    then show ?thesis by (simp add: generate_frames_from_file_def Let_def)
  next
    case False
    then have pos: "0 < frame_size - header_size" by simp
    have "generate_frames_from_file file_bytes frame_size ncols \<noteq> Inl ConfigurationError"
      unfolding generate_unfold [OF pos]
      by (auto dest: frames_loop_errors)
    with False show ?thesis by simp
  qed
next
  assume h: "0 < frame_size - header_size \<and> 0 < c \<and>
    total_frames_of (length file_bytes) (nat (frame_size - header_size)) \<le> 65535"
  define n where "n = nat (frame_size - header_size)"
  define t where "t = total_frames_of (length file_bytes) n"
  define frames where
    "frames = map (\<lambda>i. header_bytes i c t @ padded_chunk file_bytes n i) [0..<t]"
  have n: "0 < n" and c: "0 < c" and t: "t \<le> 65535"
    using h by (simp_all add: n_def t_def)
  have "10 < frame_size" using h by (simp add: header_size_def)
  then have fs: "nat frame_size = 10 + n" unfolding n_def header_size_def by linarith
  have g: "generate_frames_from_file file_bytes frame_size (int c) = Inr frames"
    using h generate_ok [of frame_size c file_bytes] by (simp add: frames_def n_def t_def)
  have len: "length frames = t" by (simp add: frames_def)
  have nth: "frames ! i = header_bytes i c t @ padded_chunk file_bytes n i" if "i < t" for i
    using that by (simp add: frames_def)
  have ceil: "length file_bytes \<le> t * n" "t * n < length file_bytes + n"
    using total_frames_ceil [OF n, of "length file_bytes"] by (simp_all add: t_def)
  have each: "length (frames ! i) = nat frame_size \<and>
            frame_idx (frames ! i) = i \<and>
            row_idx (frames ! i) = i div c \<and>
            col_idx (frames ! i) = i mod c \<and>
            current_total_frames (frames ! i) = length frames \<and>
            frame_chunk (frames ! i) = padded_chunk file_bytes n i \<and>
            length (frame_chunk (frames ! i)) = n" if "i < t" for i
    using that t c header_fields [of i t c "padded_chunk file_bytes n i"]
    by (simp add: nth len fs length_padded_chunk header_bytes_def)
  show "\<exists>frames. generate_frames_from_file file_bytes frame_size (int c) = Inr frames \<and>
         length frames = total_frames_of (length file_bytes) (nat (frame_size - header_size)) \<and>
         length file_bytes \<le> length frames * nat (frame_size - header_size) \<and>
         length frames * nat (frame_size - header_size)
           < length file_bytes + nat (frame_size - header_size) \<and>
         (\<forall>i<length frames.
            length (frames ! i) = nat frame_size \<and>
            frame_idx (frames ! i) = i \<and>
            row_idx (frames ! i) = i div c \<and>
            col_idx (frames ! i) = i mod c \<and>
            current_total_frames (frames ! i) = length frames \<and>
            frame_chunk (frames ! i)
              = padded_chunk file_bytes (nat (frame_size - header_size)) i \<and>
            length (frame_chunk (frames ! i)) = nat (frame_size - header_size))"
    unfolding n_def [symmetric] t_def [symmetric]
    using g len ceil each by (intro exI [of _ frames]) (simp add: length_padded_chunk)
next
  assume "0 < frame_size - header_size \<and> 0 < c \<and>
    65535 < total_frames_of (length file_bytes) (nat (frame_size - header_size))"
  then show "generate_frames_from_file file_bytes frame_size (int c) = Inl OverflowError"
    by (intro generate_overflow) simp_all
qed


theorem splitter_contract_witness:
  "0 < (12 :: int) - header_size \<and> (0 :: nat) < 2 \<and>
   total_frames_of (length [1, 2, 3 :: byte]) (nat (12 - header_size)) \<le> 65535 \<and>
   generate_frames_from_file [1, 2, 3] 12 2
     = Inr [[0, 0, 0, 0, 0, 0, 0, 2, 0, 0, 1, 2], [0, 1, 0, 0, 0, 1, 0, 2, 0, 0, 3, 0]] \<and>
   65535 < total_frames_of (length (replicate 65536 (0 :: byte))) (nat (11 - header_size)) \<and>
   generate_frames_from_file (replicate 65536 0) 11 (int 20) = Inl OverflowError"
proof -
  have u: "[0..<(2::nat)] = [0, 1]" by code_simp
  have a: "generate_frames_from_file [1, 2, 3] 12 2
     = Inr [[0, 0, 0, 0, 0, 0, 0, 2, 0, 0, 1, 2], [0, 1, 0, 0, 0, 1, 0, 2, 0, 0, 3, 0]]"
    by (simp add: generate_frames_from_file_def make_frame_def to_bytes2_def slice_def
        header_size_def Let_def u)
  have b: "65535 < total_frames_of (length (replicate 65536 (0 :: byte))) (nat (11 - header_size))"
    by (simp add: total_frames_of_def header_size_def)
  have c: "0 < (11 :: int) - header_size \<and> (0 :: nat) < 20" by (simp add: header_size_def)
  show ?thesis
    using splitter_contract [of "[1, 2, 3]" 12 2 2]
      splitter_contract [of "replicate 65536 0" 11 20 20] a b c
    by (simp add: header_size_def total_frames_of_def)
qed

theorem splitter_many_frames_counterexample:
  "0 < (11 :: int) - header_size \<and>
   generate_frames_from_file (replicate 65536 0) 11 20 = Inl OverflowError"
  using generate_overflow [of 11 20 "replicate 65536 0"]
  by (simp add: header_size_def total_frames_of_def)

section \<open>Properties of the handshake\<close>

lemma recv_all_packet:
  "p \<noteq> [] \<Longrightarrow> recv_all (Data p # s) (length p) = (Inr (Some p), s)"
  by (simp add: recv_all_def recv_all_loop_step)

lemma recv_all_length:
  "recv_all s n = (Inr (Some d), s') \<Longrightarrow> length d = n"
  by (auto simp: recv_all_def dest: recv_all_loop_length)

lemma handshake_zero_size:
  assumes "recv_all conn 50 = (Inr (Some nb), s1)" and "decode nb = Some name"
    and "recv_all s1 100 = (Inr (Some fb), s2)" and "decode fb = Some fname"
    and "recv_all s2 4 = (Inr (Some sb), s3)" and "from_bytes sb = 0"
  shows "result (handle_client_connection decode conn) = Raised ValueError"
    and "conn_rest (handle_client_connection decode conn) = s3"
proof -
  have "length nb = 50" "length fb = 100" "length sb = 4"
    using assms(1,3,5) by (auto dest: recv_all_length)
  then have ne: "nb \<noteq> []" "fb \<noteq> []" "sb \<noteq> []" by auto
  show "result (handle_client_connection decode conn) = Raised ValueError"
    using assms ne by (simp add: handle_client_connection_def Let_def)
  show "conn_rest (handle_client_connection decode conn) = s3"
    using assms ne by (simp add: handle_client_connection_def Let_def)
qed


lemma recv_all_closed: "0 < n \<Longrightarrow> recv_all [] n = (Inr None, [])"
  by (simp add: recv_all_def recv_all_loop_step)

text \<open>
  Claim C2. A handshake whose \<open>frame_size\<close> field is 10 or less should be rejected before
  any frame is read. The receiver only rejects the value 0 (\<open>if data_size <= 0\<close>): with
  \<open>frame_size = 5\<close> it goes on, reads the next five bytes as a frame, takes what there is
  of a header from them, and ends in the "failed to receive all frames" branch with those
  five bytes consumed.
\<close>

theorem short_frame_size_not_rejected:
  "handle_client_connection (\<lambda>bs. Some (map (\<lambda>b. char_of (unat b)) bs))
     [Data (replicate 50 84), Data (replicate 100 97), Data [0, 0, 0, 5], Data [0, 0, 0, 0, 9]]
   = \<lparr>result = Incomplete 0 1,
      transmitter = replicate 50 (CHR ''T''),
      filename = replicate 100 (CHR ''a''),
      events = [ExpectingTotal 0, ReceivedFrame 0 9, ClientDisconnected,
                FailedToReceiveAll 0 1],
      conn_rest = []\<rparr>"
proof -
  have r1: "recv_all [Data (replicate 50 84), Data (replicate 100 97), Data [0, 0, 0, 5],
                       Data [0, 0, 0, 0, 9]] 50
            = (Inr (Some (replicate 50 84)),
               [Data (replicate 100 97), Data [0, 0, 0, 5], Data [0, 0, 0, 0, 9]])"
    by (simp add: recv_all_def recv_all_loop_step)
  have r2: "recv_all [Data (replicate 100 97), Data [0, 0, 0, 5], Data [0, 0, 0, 0, 9]] 100
            = (Inr (Some (replicate 100 97)), [Data [0, 0, 0, 5], Data [0, 0, 0, 0, 9]])"
    by (simp add: recv_all_def recv_all_loop_step)
  have r3: "recv_all [Data [0, 0, 0, 5], Data [0, 0, 0, 0, 9]] 4
            = (Inr (Some [0, 0, 0, 5]), [Data [0, 0, 0, 0, 9]])"
    by (simp add: recv_all_def recv_all_loop_step)
  have r4: "recv_all [Data [0, 0, 0, 0, 9]] 5 = (Inr (Some [0, 0, 0, 0, 9]), [])"
    by (simp add: recv_all_def recv_all_loop_step)
  have r5: "recv_all [] 5 = (Inr None, [])" by (simp add: recv_all_closed)
  have sz: "from_bytes [0, 0, 0, 5] = 5" by (simp add: from_bytes_def)
  have st: "strip_nul (replicate 50 (CHR ''T'')) = replicate 50 (CHR ''T'')"
    "strip_nul (replicate 100 (CHR ''a'')) = replicate 100 (CHR ''a'')"
    by (simp_all add: strip_nul_def)
  have ch: "char_of (84 :: nat) = CHR ''T''" "char_of (97 :: nat) = CHR ''a''"
    by code_simp+
  have pf: "process_frame init_state [0, 0, 0, 0, 9]
            = \<lparr>frame_grid = [((0, 9), [])], max_row = 0, max_col = 9,
               total_frames_expected = 0, received = 1,
               log = [ExpectingTotal 0, ReceivedFrame 0 9]\<rparr>"
    by (simp add: frame_eval)
  have fl: "frame_loop 5 init_state [Data [0, 0, 0, 0, 9]]
            = (Inr (process_frame init_state [0, 0, 0, 0, 9]
                     \<lparr>log := [ExpectingTotal 0, ReceivedFrame 0 9, ClientDisconnected]\<rparr>), [])"
    by (subst frame_loop.simps, simp add: r4 pf Let_def, subst frame_loop.simps, simp add: r5)
  have ri: "receive_image 5 [Data [0, 0, 0, 0, 9]]
            = ((Incomplete 0 1, [ExpectingTotal 0, ReceivedFrame 0 9, ClientDisconnected,
                                 FailedToReceiveAll 0 1]), [])"
    by (simp add: receive_image_def fl pf finish_def)
  show ?thesis
    by (simp add: handle_client_connection_def r1 r2 r3 sz st ch ri Let_def)
qed

section \<open>The receive loop on a connection that delivers whole frames\<close>

text \<open>
  What the \<open>while True\<close> loop computes when the reads deliver the frames \<open>fs\<close> one after
  the other and the connection then closes: the same body, with the list in place of the
  socket. It is related to \<open>frame_loop\<close> below and only serves the proofs.
\<close>

fun feed_frames :: "rx_state \<Rightarrow> bytes list \<Rightarrow> rx_state" where
  "feed_frames st [] = st\<lparr>log := log st @ [ClientDisconnected]\<rparr>"
| "feed_frames st (f # fs) =
     (let st' = process_frame st f
      in if int (received st') = total_frames_expected st'
         then st'\<lparr>log := log st' @ [AllFramesReceived (total_frames_expected st')]\<rparr>
         else feed_frames st' fs)"

lemma live_empty_stream: "live s \<Longrightarrow> stream s = [] \<Longrightarrow> s = []"
  by (cases s) (auto simp: live_def stream_def split: sock_event.splits)

lemma recv_all_stream:
  assumes "live s" and "n \<le> length (stream s)"
  shows "\<exists>s'. recv_all s n = (Inr (Some (take n (stream s))), s') \<and> live s'
              \<and> stream s' = drop n (stream s)"
  using recv_all_loop_stream [of s "[]" n] assms by (simp add: recv_all_def)

lemma frame_loop_feed:
  assumes "0 < n"
  shows "live s \<Longrightarrow> stream s = concat fs \<Longrightarrow> \<forall>f \<in> set fs. length f = n \<Longrightarrow>
         fst (frame_loop n st s) = Inr (feed_frames st fs)"
proof (induction fs arbitrary: st s)
  case Nil
  then have "s = []" by (simp add: live_empty_stream)
  then show ?case
    using assms by (subst frame_loop.simps) (simp add: recv_all_closed)
next
  case (Cons f fs)
  have lf: "length f = n" using Cons.prems(3) by simp
  then have fne: "f \<noteq> []" using assms by auto
  have "n \<le> length (stream s)" using Cons.prems(2) lf by simp
  from recv_all_stream [OF Cons.prems(1) this]
  obtain s' where r: "recv_all s n = (Inr (Some (take n (stream s))), s')"
    and l: "live s'" and d: "stream s' = drop n (stream s)" by blast
  have tk: "take n (stream s) = f" using Cons.prems(2) lf by simp
  have dr: "stream s' = concat fs" using d Cons.prems(2) lf by simp
  have ih: "fst (frame_loop n (process_frame st f) s') = Inr (feed_frames (process_frame st f) fs)"
    using Cons.IH [OF l dr] Cons.prems(3) by simp
  show ?case
    by (subst frame_loop.simps) (simp add: r tk fne Let_def ih)
qed

section \<open>Frames with distinct positions\<close>

definition frame_pos :: "bytes \<Rightarrow> nat \<times> nat" where
  "frame_pos f = (row_idx f, col_idx f)"

lemma process_frame_keys:
  "fst ` set (frame_grid (process_frame st f)) = insert (frame_pos f) (fst ` set (frame_grid st))"
  by (simp add: process_frame_grid dom_update frame_pos_def)

lemma process_frame_length_new:
  "frame_pos f \<notin> fst ` set (frame_grid st) \<Longrightarrow>
   length (frame_grid (process_frame st f)) = Suc (length (frame_grid st))"
  by (simp add: process_frame_grid length_alist_update frame_pos_def)

lemma feed_frames_run:
  assumes "distinct (map frame_pos fs)"
    and "\<forall>f \<in> set fs. frame_pos f \<notin> fst ` set (frame_grid st)"
    and "\<forall>f \<in> set fs. int (current_total_frames f) = T"
    and "total_frames_expected st = T \<or> total_frames_expected st = - 1"
    and "int (length (frame_grid st) + length fs) \<le> T"
  shows "feed_frames st fs =
         (foldl process_frame st fs)
           \<lparr>log := log (foldl process_frame st fs) @
              [if fs \<noteq> [] \<and> int (length (frame_grid st) + length fs) = T
               then AllFramesReceived T else ClientDisconnected]\<rparr>"
  using assms
proof (induction fs arbitrary: st)
  case Nil
  then show ?case by simp
next
  case (Cons f fs)
  define st' where "st' = process_frame st f"
  have new: "frame_pos f \<notin> fst ` set (frame_grid st)" using Cons.prems(2) by simp
  have len: "length (frame_grid st') = Suc (length (frame_grid st))"
    unfolding st'_def using new by (rule process_frame_length_new)
  have rec: "received st' = Suc (length (frame_grid st))"
    using len by (simp add: st'_def process_frame_received)
  have tf: "int (current_total_frames f) = T" using Cons.prems(3) by simp
  have ex: "total_frames_expected st' = T"
    using Cons.prems(4) tf by (auto simp: st'_def process_frame_expected)
  show ?case
  proof (cases "fs = []")
    case True
    show ?thesis
      using True rec ex by (simp add: st'_def [symmetric] Let_def)
  next
    case False
    then have "int (received st') \<noteq> T"
      using rec Cons.prems(5) by (cases fs) auto
    then have step: "feed_frames st (f # fs) = feed_frames st' fs"
      using ex by (simp add: st'_def [symmetric] Let_def)
    have d: "distinct (map frame_pos fs)" using Cons.prems(1) by simp
    have k: "\<forall>g \<in> set fs. frame_pos g \<notin> fst ` set (frame_grid st')"
    proof
      fix g assume g: "g \<in> set fs"
      have "frame_pos f \<notin> frame_pos ` set fs" using Cons.prems(1) by simp
      with g have "frame_pos g \<noteq> frame_pos f" by (metis imageI)
      moreover have "frame_pos g \<notin> fst ` set (frame_grid st)" using Cons.prems(2) g by simp
      ultimately show "frame_pos g \<notin> fst ` set (frame_grid st')"
        by (simp add: st'_def process_frame_keys)
    qed
    have t: "\<forall>g \<in> set fs. int (current_total_frames g) = T" using Cons.prems(3) by simp
    have e: "total_frames_expected st' = T \<or> total_frames_expected st' = - 1" using ex by simp
    have l: "int (length (frame_grid st') + length fs) \<le> T" using Cons.prems(5) len by simp
    have "feed_frames st' fs =
         (foldl process_frame st' fs)
           \<lparr>log := log (foldl process_frame st' fs) @
              [if fs \<noteq> [] \<and> int (length (frame_grid st') + length fs) = T
               then AllFramesReceived T else ClientDisconnected]\<rparr>"
      by (rule Cons.IH [OF d k t e l])
    then show ?thesis
      using step False len by (simp add: st'_def [symmetric])
  qed
qed

text \<open>The grid entries a list of frames contributes, in arrival order.\<close>

definition frame_entries :: "bytes list \<Rightarrow> ((nat \<times> nat) \<times> bytes) list" where
  "frame_entries fs = map (\<lambda>f. (frame_pos f, frame_chunk f)) fs"

lemma foldl_frame_grid:
  "map_of (frame_grid (foldl process_frame st fs))
   = map_of (frame_grid st) ++ map_of (rev (frame_entries fs))"
proof (induction fs arbitrary: st)
  case Nil
  show ?case by (simp add: frame_entries_def)
next
  case (Cons f fs)
  have "map_of (frame_grid (process_frame st f))
        = (map_of (frame_grid st))(frame_pos f \<mapsto> frame_chunk f)"
    by (simp add: process_frame_grid update_conv' frame_pos_def)
  then show ?case
    by (intro ext) (simp add: Cons.IH frame_entries_def map_add_def split: option.splits)
qed

lemma Max_insert_max:
  "finite S \<Longrightarrow> Max (insert (max a x) S) = Max (insert (a :: int) (insert x S))"
  by (cases "S = {}") (simp_all add: max.assoc)

lemma foldl_max_row:
  "max_row (foldl process_frame st fs)
   = Max (insert (max_row st) (set (map (\<lambda>f. int (row_idx f)) fs)))"
proof (induction fs arbitrary: st)
  case Nil
  show ?case by simp
next
  case (Cons f fs)
  have "Max (insert (max (max_row st) (int (row_idx f))) (set (map (\<lambda>f. int (row_idx f)) fs)))
        = Max (insert (max_row st) (insert (int (row_idx f)) (set (map (\<lambda>f. int (row_idx f)) fs))))"
    by (rule Max_insert_max) simp
  then show ?case
    by (simp only: foldl_Cons Cons.IH process_frame_max_row list.map list.set)
qed

lemma foldl_max_col:
  "max_col (foldl process_frame st fs)
   = Max (insert (max_col st) (set (map (\<lambda>f. int (col_idx f)) fs)))"
proof (induction fs arbitrary: st)
  case Nil
  show ?case by simp
next
  case (Cons f fs)
  have "Max (insert (max (max_col st) (int (col_idx f))) (set (map (\<lambda>f. int (col_idx f)) fs)))
        = Max (insert (max_col st) (insert (int (col_idx f)) (set (map (\<lambda>f. int (col_idx f)) fs))))"
    by (rule Max_insert_max) simp
  then show ?case
    by (simp only: foldl_Cons Cons.IH process_frame_max_col list.map list.set)
qed

lemma foldl_received:
  "fs \<noteq> [] \<Longrightarrow>
   received (foldl process_frame st fs) = length (frame_grid (foldl process_frame st fs))"
  by (induction fs arbitrary: st rule: rev_induct) (simp_all add: process_frame_received)

lemma foldl_grid_length:
  "distinct (map frame_pos fs) \<Longrightarrow>
   \<forall>f \<in> set fs. frame_pos f \<notin> fst ` set (frame_grid st) \<Longrightarrow>
   length (frame_grid (foldl process_frame st fs)) = length (frame_grid st) + length fs"
proof (induction fs arbitrary: st)
  case Nil
  show ?case by simp
next
  case (Cons f fs)
  have new: "frame_pos f \<notin> fst ` set (frame_grid st)" using Cons.prems(2) by simp
  have k: "\<forall>g \<in> set fs. frame_pos g \<notin> fst ` set (frame_grid (process_frame st f))"
  proof
    fix g assume g: "g \<in> set fs"
    have "frame_pos f \<notin> frame_pos ` set fs" using Cons.prems(1) by simp
    with g have "frame_pos g \<noteq> frame_pos f" by (metis imageI)
    moreover have "frame_pos g \<notin> fst ` set (frame_grid st)" using Cons.prems(2) g by simp
    ultimately show "frame_pos g \<notin> fst ` set (frame_grid (process_frame st f))"
      by (simp add: process_frame_keys)
  qed
  have d: "distinct (map frame_pos fs)" using Cons.prems(1) by simp
  show ?case
    using Cons.IH [OF d k] process_frame_length_new [OF new] by simp
qed

lemma foldl_expected:
  "\<forall>f \<in> set fs. int (current_total_frames f) = T \<Longrightarrow> fs \<noteq> [] \<Longrightarrow>
   total_frames_expected st = T \<or> total_frames_expected st = - 1 \<Longrightarrow>
   total_frames_expected (foldl process_frame st fs) = T"
proof (induction fs arbitrary: st)
  case Nil
  then show ?case by simp
next
  case (Cons f fs)
  have ex: "total_frames_expected (process_frame st f) = T"
    using Cons.prems by (auto simp: process_frame_expected)
  show ?case
  proof (cases "fs = []")
    case True
    with ex show ?thesis by simp
  next
    case False
    then show ?thesis using Cons.IH [of "process_frame st f"] Cons.prems(1) ex by simp
  qed
qed

lemma combined_bytes_cong:
  "map_of (frame_grid a) = map_of (frame_grid b) \<Longrightarrow> max_row a = max_row b \<Longrightarrow>
   max_col a = max_col b \<Longrightarrow> combined_bytes a = combined_bytes b"
  by (simp add: combined_bytes_def grid_cell_def)

section \<open>The frames of the splitter, as the receiver sees them\<close>

text \<open>The frame the splitter produces for index \<open>i\<close>.\<close>

definition frame_of :: "bytes \<Rightarrow> nat \<Rightarrow> nat \<Rightarrow> nat \<Rightarrow> nat \<Rightarrow> bytes" where
  "frame_of file_bytes n c t i = header_bytes i c t @ padded_chunk file_bytes n i"

lemma generate_Inr:
  assumes "generate_frames_from_file file_bytes frame_size (int c) = Inr frames" and "0 < c"
  shows "0 < frame_size - header_size"
    and "total_frames_of (length file_bytes) (nat (frame_size - header_size)) \<le> 65535"
    and "frames = map (frame_of file_bytes (nat (frame_size - header_size)) c
                        (total_frames_of (length file_bytes) (nat (frame_size - header_size))))
                   [0..<total_frames_of (length file_bytes) (nat (frame_size - header_size))]"
proof -
  show pos: "0 < frame_size - header_size"
  proof (rule ccontr)
    assume "\<not> 0 < frame_size - header_size"
    then have "generate_frames_from_file file_bytes frame_size (int c) = Inl ConfigurationError"
      by (simp add: generate_frames_from_file_def Let_def)
    with assms(1) show False by simp
  qed
  show le: "total_frames_of (length file_bytes) (nat (frame_size - header_size)) \<le> 65535"
  proof (rule ccontr)
    assume "\<not> total_frames_of (length file_bytes) (nat (frame_size - header_size)) \<le> 65535"
    then have "generate_frames_from_file file_bytes frame_size (int c) = Inl OverflowError"
      using pos assms(2) by (intro generate_overflow) simp_all
    with assms(1) show False by simp
  qed
  show "frames = map (frame_of file_bytes (nat (frame_size - header_size)) c
                        (total_frames_of (length file_bytes) (nat (frame_size - header_size))))
                   [0..<total_frames_of (length file_bytes) (nat (frame_size - header_size))]"
  proof -
    have "frame_of file_bytes (nat (frame_size - header_size)) c
            (total_frames_of (length file_bytes) (nat (frame_size - header_size)))
          = (\<lambda>i. header_bytes i c (total_frames_of (length file_bytes) (nat (frame_size - header_size)))
                        @ padded_chunk file_bytes (nat (frame_size - header_size)) i)"
      by (intro ext) (simp only: frame_of_def)
    then show ?thesis
      using generate_ok [OF pos assms(2) le] assms(1) by (simp only: sum.inject)
  qed
qed

lemma frame_of_fields:
  assumes "i < t" "t \<le> 65535" "0 < c"
  shows "frame_pos (frame_of file_bytes n c t i) = (i div c, i mod c)"
    and "current_total_frames (frame_of file_bytes n c t i) = t"
    and "frame_chunk (frame_of file_bytes n c t i) = padded_chunk file_bytes n i"
    and "length (frame_of file_bytes n c t i) = 10 + n"
proof -
  show "frame_pos (frame_of file_bytes n c t i) = (i div c, i mod c)"
    unfolding frame_pos_def frame_of_def by (simp only: header_fields(2,3) [OF assms])
  show "current_total_frames (frame_of file_bytes n c t i) = t"
    unfolding frame_of_def by (rule header_fields(4) [OF assms])
  show "frame_chunk (frame_of file_bytes n c t i) = padded_chunk file_bytes n i"
    unfolding frame_of_def by (rule header_fields(5) [OF assms])
  have "length (header_bytes i c t) = 10" by (simp add: header_bytes_def)
  then show "length (frame_of file_bytes n c t i) = 10 + n"
    by (simp add: frame_of_def length_padded_chunk)
qed

lemma frame_of_pos_inj:
  assumes "t \<le> 65535" "0 < c"
  shows "inj_on (\<lambda>i. frame_pos (frame_of file_bytes n c t i)) {0..<t}"
proof (rule inj_onI)
  fix i j
  assume i: "i \<in> {0..<t}" and j: "j \<in> {0..<t}"
    and e: "frame_pos (frame_of file_bytes n c t i) = frame_pos (frame_of file_bytes n c t j)"
  have "frame_pos (frame_of file_bytes n c t i) = (i div c, i mod c)"
    using i assms by (intro frame_of_fields(1)) simp_all
  moreover have "frame_pos (frame_of file_bytes n c t j) = (j div c, j mod c)"
    using j assms by (intro frame_of_fields(1)) simp_all
  ultimately have "(i div c, i mod c) = (j div c, j mod c)"
    using e by simp
  then have "i div c * c + i mod c = j div c * c + j mod c" by simp
  then show "i = j" by (simp only: div_mult_mod_eq)
qed

lemma generated_frames_distinct:
  assumes "t \<le> 65535" "0 < c"
  shows "distinct (map frame_pos (map (frame_of file_bytes n c t) [0..<t]))"
proof -
  have "distinct (map (\<lambda>i. frame_pos (frame_of file_bytes n c t i)) [0..<t])"
    using frame_of_pos_inj [OF assms] by (simp add: distinct_map)
  then show ?thesis by (simp add: comp_def)
qed

section \<open>Completed transfers\<close>

lemma combined_bytes_log [simp]: "combined_bytes (st\<lparr>log := l\<rparr>) = combined_bytes st"
  by (simp add: combined_bytes_def)

lemma receive_image_feed:
  assumes "0 < n" "live s" "stream s = concat fs" "\<forall>f \<in> set fs. length f = n"
  shows "fst (receive_image n s) = finish (feed_frames init_state fs)"
proof -
  have "fst (frame_loop n init_state s) = Inr (feed_frames init_state fs)"
    using assms by (intro frame_loop_feed) simp_all
  then show ?thesis
    by (cases "frame_loop n init_state s") (simp add: receive_image_def)
qed

lemma run_complete:
  assumes "fs \<noteq> []" and "distinct (map frame_pos fs)"
    and "\<forall>f \<in> set fs. current_total_frames f = length fs"
  shows "fst (finish (feed_frames init_state fs))
         = Reconstructed (combined_bytes (foldl process_frame init_state fs))"
proof -
  define T where "T = int (length fs)"
  define st where "st = foldl process_frame init_state fs"
  have g0: "frame_grid init_state = []" by (simp add: init_state_def)
  have e0: "total_frames_expected init_state = T \<or> total_frames_expected init_state = - 1"
    by (simp add: init_state_def)
  have k0: "\<forall>f \<in> set fs. frame_pos f \<notin> fst ` set (frame_grid init_state)"
    by (simp add: g0)
  have t0: "\<forall>f \<in> set fs. int (current_total_frames f) = T"
    using assms(3) by (simp add: T_def)
  have l0: "int (length (frame_grid init_state) + length fs) \<le> T"
    by (simp add: g0 T_def)
  have run: "feed_frames init_state fs = st\<lparr>log := log st @ [AllFramesReceived T]\<rparr>"
    using feed_frames_run [OF assms(2) k0 t0 e0 l0] assms(1)
    by (simp add: st_def g0 T_def)
  have ex: "total_frames_expected st = T"
    unfolding st_def using t0 assms(1) e0 by (rule foldl_expected)
  have "length (frame_grid st) = length fs"
    unfolding st_def using foldl_grid_length [OF assms(2) k0] by (simp add: g0)
  then have rc: "received st = length fs"
    using foldl_received [OF assms(1), of init_state] by (simp add: st_def)
  have "0 < T" using assms(1) by (simp add: T_def)
  then show ?thesis
    using ex rc by (simp add: run finish_def T_def st_def [symmetric])
qed

lemma run_incomplete:
  assumes "fs \<noteq> []" and "distinct (map frame_pos fs)"
    and "\<forall>f \<in> set fs. int (current_total_frames f) = T" and "int (length fs) < T"
  shows "finish (feed_frames init_state fs)
         = (Incomplete T (length fs),
            log (foldl process_frame init_state fs)
              @ [ClientDisconnected, FailedToReceiveAll T (length fs)])"
proof -
  define st where "st = foldl process_frame init_state fs"
  have g0: "frame_grid init_state = []" by (simp add: init_state_def)
  have e0: "total_frames_expected init_state = T \<or> total_frames_expected init_state = - 1"
    by (simp add: init_state_def)
  have k0: "\<forall>f \<in> set fs. frame_pos f \<notin> fst ` set (frame_grid init_state)"
    by (simp add: g0)
  have l0: "int (length (frame_grid init_state) + length fs) \<le> T"
    using assms(4) by (simp add: g0)
  have run: "feed_frames init_state fs = st\<lparr>log := log st @ [ClientDisconnected]\<rparr>"
    using feed_frames_run [OF assms(2) k0 assms(3) e0 l0] assms(4)
    by (simp add: st_def g0)
  have ex: "total_frames_expected st = T"
    unfolding st_def using assms(3,1) e0 by (rule foldl_expected)
  have "length (frame_grid st) = length fs"
    unfolding st_def using foldl_grid_length [OF assms(2) k0] by (simp add: g0)
  then have rc: "received st = length fs"
    using foldl_received [OF assms(1), of init_state] by (simp add: st_def)
  show ?thesis
    using ex rc assms(4) by (simp add: run finish_def st_def [symmetric])
qed

section \<open>Arrival order and the frame index\<close>

lemma frame_entries_perm:
  assumes "mset fs' = mset fs" and "distinct (map frame_pos fs)"
  shows "map_of (rev (frame_entries fs')) = map_of (rev (frame_entries fs))"
proof -
  have m: "mset (map frame_pos fs') = mset (map frame_pos fs)" using assms(1) by simp
  have d': "distinct (map frame_pos fs')"
    using mset_eq_imp_distinct_iff [OF m] assms(2) by simp
  have k: "map fst (rev (frame_entries fs)) = rev (map frame_pos fs)"
    "map fst (rev (frame_entries fs')) = rev (map frame_pos fs')"
    by (simp_all add: frame_entries_def rev_map comp_def)
  have s: "set fs' = set fs" using assms(1) by (rule mset_eq_setD)
  have "set (rev (frame_entries fs')) = set (rev (frame_entries fs))"
    by (simp add: frame_entries_def s)
  moreover have "distinct (map fst (rev (frame_entries fs')))"
    "distinct (map fst (rev (frame_entries fs)))"
    using d' assms(2) by (simp_all only: k distinct_rev)
  ultimately show ?thesis by (simp only: map_of_inject_set)
qed

lemma combined_bytes_perm:
  assumes "mset fs' = mset fs" and "distinct (map frame_pos fs)"
  shows "combined_bytes (foldl process_frame st fs') = combined_bytes (foldl process_frame st fs)"
proof (rule combined_bytes_cong)
  have s: "set fs' = set fs" using assms(1) by (rule mset_eq_setD)
  show "map_of (frame_grid (foldl process_frame st fs'))
        = map_of (frame_grid (foldl process_frame st fs))"
    by (simp only: foldl_frame_grid frame_entries_perm [OF assms])
  show "max_row (foldl process_frame st fs') = max_row (foldl process_frame st fs)"
    by (simp only: foldl_max_row set_map s)
  show "max_col (foldl process_frame st fs') = max_col (foldl process_frame st fs)"
    by (simp only: foldl_max_col set_map s)
qed

lemma process_frame_drop2:
  assumes "drop 2 g = drop 2 f"
  shows "process_frame st g = process_frame st f"
proof -
  have r: "row_idx h = from_bytes (take 2 (drop 2 h))" for h
    by (simp add: row_idx_def frame_header_def expected_header_size_def slice_def drop_take)
  have c: "col_idx h = from_bytes (take 2 (drop 2 (drop 2 h)))" for h
    by (simp add: col_idx_def frame_header_def expected_header_size_def slice_def drop_take)
  have t: "current_total_frames h = from_bytes (take 2 (drop 4 (drop 2 h)))" for h
    by (simp add: current_total_frames_def frame_header_def expected_header_size_def
        slice_def drop_take)
  have k: "frame_chunk h = drop 8 (drop 2 h)" for h
    by (simp add: frame_chunk_def expected_header_size_def)
  have "row_idx g = row_idx f" "col_idx g = col_idx f"
    "current_total_frames g = current_total_frames f" "frame_chunk g = frame_chunk f"
    using assms by (simp_all only: r c t k)
  then show ?thesis by (simp add: process_frame_def)
qed

lemma feed_frames_drop2:
  "list_all2 (\<lambda>g f. length g = length f \<and> drop 2 g = drop 2 f) gs fs \<Longrightarrow>
   feed_frames st gs = feed_frames st fs"
proof (induction gs fs arbitrary: st rule: list_all2_induct)
  case Nil
  show ?case by simp
next
  case (Cons g gs f fs)
  have "process_frame st g = process_frame st f"
    using Cons.hyps(1) by (intro process_frame_drop2) simp
  then show ?case by (simp add: Cons.IH Let_def)
qed

lemma generated_frames_facts:
  assumes "generate_frames_from_file file_bytes frame_size (int c) = Inr frames" and "0 < c"
  shows "distinct (map frame_pos frames)"
    and "\<forall>f \<in> set frames. current_total_frames f = length frames"
    and "\<forall>f \<in> set frames. length f = nat frame_size"
    and "0 < nat frame_size"
proof -
  define n where "n = nat (frame_size - header_size)"
  define t where "t = total_frames_of (length file_bytes) n"
  note g = generate_Inr [OF assms, folded n_def t_def]
  have fr: "frames = map (frame_of file_bytes n c t) [0..<t]" by (rule g(3))
  have len: "length frames = t" by (simp add: fr)
  have "10 < frame_size" using g(1) by (simp add: header_size_def)
  then have fs: "nat frame_size = 10 + n" unfolding n_def header_size_def by linarith
  show "distinct (map frame_pos frames)"
    unfolding fr using g(2) assms(2) by (rule generated_frames_distinct)
  show "\<forall>f \<in> set frames. current_total_frames f = length frames"
  proof
    fix f assume "f \<in> set frames"
    then obtain i where "i < t" "f = frame_of file_bytes n c t i" by (auto simp: fr)
    then show "current_total_frames f = length frames"
      using frame_of_fields(2) [OF _ g(2) assms(2)] len by simp
  qed
  show "\<forall>f \<in> set frames. length f = nat frame_size"
  proof
    fix f assume "f \<in> set frames"
    then obtain i where "i < t" "f = frame_of file_bytes n c t i" by (auto simp: fr)
    then show "length f = nat frame_size"
      using frame_of_fields(4) [OF _ g(2) assms(2)] fs by simp
  qed
  show "0 < nat frame_size" using fs by simp
qed

text \<open>
  Claim C5. Let the splitter produce the frames of a file. If the receiver gets them in
  any permutation, and with any bytes in place of the two \<open>frame_index\<close> bytes of each
  frame, over any segmentation of the stream, the outcome of the session is the one it
  has for the frames as produced: the same reconstructed bytes. Placement uses the
  \<open>(row, col)\<close> fields only.
\<close>

theorem order_independence:
  assumes "generate_frames_from_file file_bytes frame_size (int c) = Inr frames" and "0 < c"
    and "mset arrived = mset frames"
    and "list_all2 (\<lambda>g f. length g = length f \<and> drop 2 g = drop 2 f) renumbered arrived"
    and "live s" and "stream s = concat frames"
    and "live s'" and "stream s' = concat renumbered"
  shows "fst (fst (receive_image (nat frame_size) s'))
         = fst (fst (receive_image (nat frame_size) s))"
proof -
  note f = generated_frames_facts [OF assms(1,2)]
  have sa: "set arrived = set frames" using assms(3) by (rule mset_eq_setD)
  have la: "length arrived = length frames" using assms(3) by (rule mset_eq_length)
  have lr: "length renumbered = length arrived" using assms(4) by (rule list_all2_lengthD)
  have rl: "\<forall>g \<in> set renumbered. length g = nat frame_size"
  proof
    fix g assume "g \<in> set renumbered"
    then obtain i where i: "i < length renumbered" "g = renumbered ! i"
      by (auto simp: in_set_conv_nth)
    then have "length g = length (arrived ! i)"
      using assms(4) by (auto dest: list_all2_nthD)
    moreover have "arrived ! i \<in> set frames" using i lr sa by (metis nth_mem)
    ultimately show "length g = nat frame_size" using f(3) by simp
  qed
  have a: "fst (receive_image (nat frame_size) s) = finish (feed_frames init_state frames)"
    using f(4) assms(5,6) f(3) by (rule receive_image_feed)
  have "fst (receive_image (nat frame_size) s') = finish (feed_frames init_state renumbered)"
    using f(4) assms(7,8) rl by (rule receive_image_feed)
  then have b: "fst (receive_image (nat frame_size) s') = finish (feed_frames init_state arrived)"
    using feed_frames_drop2 [OF assms(4)] by simp
  show ?thesis
  proof (cases "frames = []")
    case True
    then have "arrived = []" using la by simp
    with True a b show ?thesis by simp
  next
    case False
    then have ne: "arrived \<noteq> []" using la by auto
    have m: "mset (map frame_pos arrived) = mset (map frame_pos frames)"
      using assms(3) by simp
    have da: "distinct (map frame_pos arrived)"
      using mset_eq_imp_distinct_iff [OF m] f(1) by simp
    have ta: "\<forall>f \<in> set arrived. current_total_frames f = length arrived"
      using f(2) sa la by simp
    have "fst (finish (feed_frames init_state arrived))
          = Reconstructed (combined_bytes (foldl process_frame init_state arrived))"
      using ne da ta by (rule run_complete)
    moreover have "fst (finish (feed_frames init_state frames))
          = Reconstructed (combined_bytes (foldl process_frame init_state frames))"
      using False f(1,2) by (rule run_complete)
    moreover have "combined_bytes (foldl process_frame init_state arrived)
          = combined_bytes (foldl process_frame init_state frames)"
      using assms(3) f(1) by (rule combined_bytes_perm)
    ultimately show ?thesis using a b by simp
  qed
qed


theorem order_independence_witness:
  "generate_frames_from_file [1, 2, 3] 12 (int 2)
     = Inr [[0, 0, 0, 0, 0, 0, 0, 2, 0, 0, 1, 2], [0, 1, 0, 0, 0, 1, 0, 2, 0, 0, 3, 0]] \<and>
   (0 :: nat) < 2 \<and>
   mset [[0, 1, 0, 0, 0, 1, 0, 2, 0, 0, 3, 0], [0, 0, 0, 0, 0, 0, 0, 2, 0, 0, 1, 2 :: byte]]
     = mset [[0, 0, 0, 0, 0, 0, 0, 2, 0, 0, 1, 2], [0, 1, 0, 0, 0, 1, 0, 2, 0, 0, 3, 0]] \<and>
   list_all2 (\<lambda>g f. length g = length f \<and> drop 2 g = drop 2 f)
     [[9, 9, 0, 0, 0, 1, 0, 2, 0, 0, 3, 0], [7, 7, 0, 0, 0, 0, 0, 2, 0, 0, 1, 2 :: byte]]
     [[0, 1, 0, 0, 0, 1, 0, 2, 0, 0, 3, 0], [0, 0, 0, 0, 0, 0, 0, 2, 0, 0, 1, 2]] \<and>
   live [Data [0, 0, 0, 0, 0, 0, 0, 2, 0, 0, 1, 2], Data [0, 1, 0, 0, 0, 1, 0, 2, 0, 0, 3, 0]] \<and>
   live [Data [9, 9, 0, 0, 0, 1, 0], Data [2, 0, 0, 3, 0, 7, 7, 0, 0, 0, 0, 0, 2, 0, 0, 1, 2]] \<and>
   fst (fst (receive_image (nat 12)
      [Data [9, 9, 0, 0, 0, 1, 0], Data [2, 0, 0, 3, 0, 7, 7, 0, 0, 0, 0, 0, 2, 0, 0, 1, 2]]))
   = fst (fst (receive_image (nat 12)
      [Data [0, 0, 0, 0, 0, 0, 0, 2, 0, 0, 1, 2], Data [0, 1, 0, 0, 0, 1, 0, 2, 0, 0, 3, 0]]))"
proof -
  have u: "[0..<(2::nat)] = [0, 1]" by code_simp
  have h1: "generate_frames_from_file [1, 2, 3] 12 (int 2)
     = Inr [[0, 0, 0, 0, 0, 0, 0, 2, 0, 0, 1, 2], [0, 1, 0, 0, 0, 1, 0, 2, 0, 0, 3, 0]]"
    by (simp add: generate_frames_from_file_def make_frame_def to_bytes2_def slice_def
        header_size_def Let_def u)
  have h2: "(0 :: nat) < 2" by simp
  have h3: "mset [[0, 1, 0, 0, 0, 1, 0, 2, 0, 0, 3, 0], [0, 0, 0, 0, 0, 0, 0, 2, 0, 0, 1, 2 :: byte]]
     = mset [[0, 0, 0, 0, 0, 0, 0, 2, 0, 0, 1, 2], [0, 1, 0, 0, 0, 1, 0, 2, 0, 0, 3, 0]]"
    by (simp add: add.commute)
  have h4: "list_all2 (\<lambda>g f. length g = length f \<and> drop 2 g = drop 2 f)
     [[9, 9, 0, 0, 0, 1, 0, 2, 0, 0, 3, 0], [7, 7, 0, 0, 0, 0, 0, 2, 0, 0, 1, 2 :: byte]]
     [[0, 1, 0, 0, 0, 1, 0, 2, 0, 0, 3, 0], [0, 0, 0, 0, 0, 0, 0, 2, 0, 0, 1, 2]]"
    by simp
  have h5: "live [Data [0, 0, 0, 0, 0, 0, 0, 2, 0, 0, 1, 2],
                  Data [0, 1, 0, 0, 0, 1, 0, 2, 0, 0, 3, 0]]"
    by (simp add: live_def)
  have h6: "stream [Data [0, 0, 0, 0, 0, 0, 0, 2, 0, 0, 1, 2],
                    Data [0, 1, 0, 0, 0, 1, 0, 2, 0, 0, 3, 0]]
            = concat [[0, 0, 0, 0, 0, 0, 0, 2, 0, 0, 1, 2], [0, 1, 0, 0, 0, 1, 0, 2, 0, 0, 3, 0]]"
    by (simp add: stream_def)
  have h7: "live [Data [9, 9, 0, 0, 0, 1, 0],
                  Data [2, 0, 0, 3, 0, 7, 7, 0, 0, 0, 0, 0, 2, 0, 0, 1, 2]]"
    by (simp add: live_def)
  have h8: "stream [Data [9, 9, 0, 0, 0, 1, 0],
                    Data [2, 0, 0, 3, 0, 7, 7, 0, 0, 0, 0, 0, 2, 0, 0, 1, 2]]
            = concat [[9, 9, 0, 0, 0, 1, 0, 2, 0, 0, 3, 0], [7, 7, 0, 0, 0, 0, 0, 2, 0, 0, 1, 2]]"
    by (simp add: stream_def)
  from order_independence [OF h1 h2 h3 h4 h5 h6 h7 h8] h1 h2 h3 h4 h5 h7
  show ?thesis by blast
qed

section \<open>A transfer with one frame omitted\<close>

lemma foldl_log_no_missing:
  "MissingChunk r c \<notin> set (log st) \<Longrightarrow>
   MissingChunk r c \<notin> set (log (foldl process_frame st fs))"
  by (induction fs arbitrary: st) (simp_all add: process_frame_log)

lemma omitted_frame_outcome:
  assumes "generate_frames_from_file file_bytes frame_size (int c) = Inr frames" and "0 < c"
    and "2 \<le> length frames" and "k < length frames"
    and "live s" and "stream s = concat (take k frames @ drop (Suc k) frames)"
  shows "fst (fst (receive_image (nat frame_size) s))
           = Incomplete (int (length frames)) (length frames - 1)"
    and "MissingChunk r c' \<notin> set (snd (fst (receive_image (nat frame_size) s)))"
    and "last (snd (fst (receive_image (nat frame_size) s)))
           = FailedToReceiveAll (int (length frames)) (length frames - 1)"
proof -
  define fs where "fs = take k frames @ drop (Suc k) frames"
  note f = generated_frames_facts [OF assms(1,2)]
  have sub: "set fs \<subseteq> set frames"
    by (auto simp: fs_def dest: in_set_takeD in_set_dropD)
  have len: "length fs = length frames - 1"
    using assms(4) by (simp add: fs_def)
  have ne: "fs \<noteq> []" using len assms(3) by auto
  have "frames = take k frames @ frames ! k # drop (Suc k) frames"
    using assms(4) by (rule id_take_nth_drop)
  then have "distinct (map frame_pos (take k frames @ frames ! k # drop (Suc k) frames))"
    using f(1) by simp
  then have d: "distinct (map frame_pos fs)" by (auto simp: fs_def)
  have t: "\<forall>g \<in> set fs. int (current_total_frames g) = int (length frames)"
    using f(2) sub by auto
  have l: "\<forall>g \<in> set fs. length g = nat frame_size" using f(3) sub by auto
  have lt: "int (length fs) < int (length frames)" using len assms(3) by simp
  have "fst (receive_image (nat frame_size) s) = finish (feed_frames init_state fs)"
    using f(4) assms(5) assms(6) [folded fs_def] l by (rule receive_image_feed)
  then have r: "fst (receive_image (nat frame_size) s)
      = (Incomplete (int (length frames)) (length frames - 1),
         log (foldl process_frame init_state fs)
           @ [ClientDisconnected, FailedToReceiveAll (int (length frames)) (length frames - 1)])"
    using run_incomplete [OF ne d t lt] by (simp add: len)
  show "fst (fst (receive_image (nat frame_size) s))
           = Incomplete (int (length frames)) (length frames - 1)"
    by (simp add: r)
  have "MissingChunk r c' \<notin> set (log (foldl process_frame init_state fs))"
    by (rule foldl_log_no_missing) (simp add: init_state_def)
  then show "MissingChunk r c' \<notin> set (snd (fst (receive_image (nat frame_size) s)))"
    by (simp add: r)
  show "last (snd (fst (receive_image (nat frame_size) s)))
           = FailedToReceiveAll (int (length frames)) (length frames - 1)"
    by (simp add: r)
qed

text \<open>The twelve frames of a twelve-byte file at frame size 11 and four columns.\<close>

definition twelve_frames :: "bytes list" where
  "twelve_frames =
     [[0, 0, 0, 0, 0, 0, 0, 12, 0, 0, 1],
      [0, 1, 0, 0, 0, 1, 0, 12, 0, 0, 2],
      [0, 2, 0, 0, 0, 2, 0, 12, 0, 0, 3],
      [0, 3, 0, 0, 0, 3, 0, 12, 0, 0, 4],
      [0, 4, 0, 1, 0, 0, 0, 12, 0, 0, 5],
      [0, 5, 0, 1, 0, 1, 0, 12, 0, 0, 6],
      [0, 6, 0, 1, 0, 2, 0, 12, 0, 0, 7],
      [0, 7, 0, 1, 0, 3, 0, 12, 0, 0, 8],
      [0, 8, 0, 2, 0, 0, 0, 12, 0, 0, 9],
      [0, 9, 0, 2, 0, 1, 0, 12, 0, 0, 10],
      [0, 10, 0, 2, 0, 2, 0, 12, 0, 0, 11],
      [0, 11, 0, 2, 0, 3, 0, 12, 0, 0, 12]]"

text \<open>A connection that delivers them without the frame at row 1, column 1, and closes.\<close>

definition eleven_frames_sock :: sock where
  "eleven_frames_sock =
     [Data [0, 0, 0, 0, 0, 0, 0, 12, 0, 0, 1],
      Data [0, 1, 0, 0, 0, 1, 0, 12, 0, 0, 2],
      Data [0, 2, 0, 0, 0, 2, 0, 12, 0, 0, 3],
      Data [0, 3, 0, 0, 0, 3, 0, 12, 0, 0, 4],
      Data [0, 4, 0, 1, 0, 0, 0, 12, 0, 0, 5],
      Data [0, 6, 0, 1, 0, 2, 0, 12, 0, 0, 7],
      Data [0, 7, 0, 1, 0, 3, 0, 12, 0, 0, 8],
      Data [0, 8, 0, 2, 0, 0, 0, 12, 0, 0, 9],
      Data [0, 9, 0, 2, 0, 1, 0, 12, 0, 0, 10],
      Data [0, 10, 0, 2, 0, 2, 0, 12, 0, 0, 11],
      Data [0, 11, 0, 2, 0, 3, 0, 12, 0, 0, 12]]"

lemma twelve_frames_generated:
  "generate_frames_from_file [1, 2, 3, 4, 5, 6, 7, 8, 9, 10, 11, 12] 11 (int 4) = Inr twelve_frames"
proof -
  have u: "[0..<(12::nat)] = [0, 1, 2, 3, 4, 5, 6, 7, 8, 9, 10, 11]" by code_simp
  show ?thesis
    by (simp add: generate_frames_from_file_def make_frame_def to_bytes2_def slice_def
        header_size_def Let_def u twelve_frames_def)
qed

lemma eleven_frames_sock_facts:
  "live eleven_frames_sock"
  "stream eleven_frames_sock = concat (take 5 twelve_frames @ drop (Suc 5) twelve_frames)"
  by (simp_all add: eleven_frames_sock_def twelve_frames_def live_def stream_def)

text \<open>
  Claim C4 (amended). When one frame of a transfer of at least two frames is omitted and
  the stream then ends, the loop stops on the closed connection with one position fewer
  than the expected total, and the handler takes the "failed to receive all frames"
  branch: no reconstruction is produced, the failure reports the expected and the
  received count (12 and 11 for a 12-frame, 3-by-4 transfer), and no missing-chunk
  warning is recorded. The empty gap with its warning belongs to the reconstruction, which
  only runs when the number of distinct positions received equals the expected total.
\<close>

theorem omitted_frame_aborts:
  assumes "generate_frames_from_file file_bytes frame_size (int c) = Inr frames" and "0 < c"
    and "2 \<le> length frames" and "k < length frames"
    and "live s" and "stream s = concat (take k frames @ drop (Suc k) frames)"
  shows "fst (fst (receive_image (nat frame_size) s))
           = Incomplete (int (length frames)) (length frames - 1) \<and>
         (\<forall>r c'. MissingChunk r c' \<notin> set (snd (fst (receive_image (nat frame_size) s)))) \<and>
         last (snd (fst (receive_image (nat frame_size) s)))
           = FailedToReceiveAll (int (length frames)) (length frames - 1)"
  using omitted_frame_outcome [OF assms] by blast

theorem omitted_frame_aborts_witness:
  "generate_frames_from_file [1, 2, 3, 4, 5, 6, 7, 8, 9, 10, 11, 12] 11 (int 4)
     = Inr twelve_frames \<and>
   (0 :: nat) < 4 \<and> 2 \<le> length twelve_frames \<and> 5 < length twelve_frames \<and>
   live eleven_frames_sock \<and>
   stream eleven_frames_sock = concat (take 5 twelve_frames @ drop (Suc 5) twelve_frames) \<and>
   fst (fst (receive_image (nat 11) eleven_frames_sock)) = Incomplete 12 11 \<and>
   last (snd (fst (receive_image (nat 11) eleven_frames_sock))) = FailedToReceiveAll 12 11"
proof -
  have l: "length twelve_frames = 12" by (simp add: twelve_frames_def)
  have h3: "2 \<le> length twelve_frames" and h4: "5 < length twelve_frames" by (simp_all add: l)
  have h2: "(0 :: nat) < 4" by simp
  from omitted_frame_aborts [OF twelve_frames_generated h2 h3 h4 eleven_frames_sock_facts]
    twelve_frames_generated eleven_frames_sock_facts h3 h4
  show ?thesis by (simp add: l)
qed

theorem omitted_frame_counterexample:
  "generate_frames_from_file [1, 2, 3, 4, 5, 6, 7, 8, 9, 10, 11, 12] 11 4 = Inr twelve_frames \<and>
   length twelve_frames = 12 \<and>
   stream eleven_frames_sock = concat (take 5 twelve_frames @ drop 6 twelve_frames) \<and>
   fst (fst (receive_image 11 eleven_frames_sock)) = Incomplete 12 11"
proof -
  have l: "length twelve_frames = 12" by (simp add: twelve_frames_def)
  have h3: "2 \<le> length twelve_frames" and h4: "5 < length twelve_frames" by (simp_all add: l)
  have h2: "(0 :: nat) < 4" by simp
  from omitted_frame_outcome(1) [OF twelve_frames_generated h2 h3 h4 eleven_frames_sock_facts]
    twelve_frames_generated eleven_frames_sock_facts(2)
  show ?thesis by (simp add: l)
qed

section \<open>Reconstruction of a complete transfer\<close>

lemma concat_full_chunks:
  "k * n \<le> length bs \<Longrightarrow>
   concat (map (\<lambda>i. take n (drop (i * n) bs)) [0..<k]) = take (k * n) bs"
proof (induction k)
  case 0
  show ?case by simp
next
  case (Suc k)
  have "take (k * n) bs @ take n (drop (k * n) bs) = take (k * n + n) bs"
    by (simp add: take_add)
  then show ?case using Suc by (simp add: add.commute)
qed

lemma padded_chunk_full:
  "(i + 1) * n \<le> length bs \<Longrightarrow> padded_chunk bs n i = take n (drop (i * n) bs)"
  by (simp add: padded_chunk_def slice_def)

lemma padded_chunk_last:
  assumes "k * n \<le> length bs" and "length bs \<le> (k + 1) * n"
  shows "padded_chunk bs n k = drop (k * n) bs @ replicate ((k + 1) * n - length bs) 0"
proof -
  have "length bs - k * n \<le> n" using assms by simp
  then have "take n (drop (k * n) bs) = drop (k * n) bs" by simp
  moreover have "n - (length bs - k * n) = (k + 1) * n - length bs" using assms by simp
  ultimately show ?thesis by (simp add: padded_chunk_def slice_def)
qed

lemma concat_padded:
  assumes "0 < t" and "length bs \<le> t * n" and "t * n < length bs + n"
  shows "concat (map (padded_chunk bs n) [0..<t]) = bs @ replicate (t * n - length bs) 0"
proof -
  obtain k where t: "t = Suc k" using assms(1) by (cases t) auto
  have kn: "k * n \<le> length bs" using assms(3) by (simp add: t)
  have m: "map (padded_chunk bs n) [0..<k] = map (\<lambda>i. take n (drop (i * n) bs)) [0..<k]"
  proof (rule map_cong [OF refl])
    fix i assume "i \<in> set [0..<k]"
    then have "Suc i \<le> k" by simp
    then have "Suc i * n \<le> k * n" by (rule mult_le_mono1)
    then have "(i + 1) * n \<le> length bs" using kn by simp
    then show "padded_chunk bs n i = take n (drop (i * n) bs)" by (rule padded_chunk_full)
  qed
  have a: "concat (map (padded_chunk bs n) [0..<k]) = take (k * n) bs"
    unfolding m by (rule concat_full_chunks [OF kn])
  have b: "padded_chunk bs n k = drop (k * n) bs @ replicate ((k + 1) * n - length bs) 0"
    using kn assms(2) by (intro padded_chunk_last) (simp_all add: t)
  show ?thesis by (simp add: t a b)
qed

lemma concat_rows:
  "concat (map (\<lambda>r. concat (map (\<lambda>cc. g (r * c + cc)) [0..<c])) [0..<R])
   = concat (map g [0..<R * c])"
proof (induction R)
  case 0
  show ?case by simp
next
  case (Suc R)
  have "map (\<lambda>cc. g (R * c + cc)) [0..<c] = map g (map (\<lambda>cc. cc + R * c) [0..<c])"
    by (simp add: comp_def add.commute)
  also have "\<dots> = map g [R * c..<c + R * c]" by (simp only: map_add_upt)
  finally have row: "map (\<lambda>cc. g (R * c + cc)) [0..<c] = map g [R * c..<c + R * c]" .
  have sp: "[0..<Suc R * c] = [0..<R * c] @ [R * c..<c + R * c]"
    using upt_add_eq_append [of 0 "R * c" c] by (simp add: add.commute)
  have "concat (map (\<lambda>r. concat (map (\<lambda>cc. g (r * c + cc)) [0..<c])) [0..<Suc R])
        = concat (map g [0..<R * c]) @ concat (map g [R * c..<c + R * c])"
    by (simp add: Suc row)
  also have "\<dots> = concat (map g [0..<Suc R * c])"
    by (simp only: sp map_append concat_append)
  finally show ?case .
qed

lemma concat_beyond:
  "t \<le> m \<Longrightarrow> concat (map (\<lambda>j. if j < t then h j else []) [0..<m]) = concat (map h [0..<t])"
proof -
  assume "t \<le> m"
  then have sp: "[0..<m] = [0..<t] @ [t..<m]"
    using upt_add_eq_append [of 0 t "m - t"] by simp
  have a: "map (\<lambda>j. if j < t then h j else []) [0..<t] = map h [0..<t]"
    by (rule map_cong) simp_all
  have b: "concat (map (\<lambda>j. if j < t then h j else []) [t..<m]) = []"
    by simp
  show ?thesis
    by (simp only: sp map_append concat_append a b append_Nil2)
qed

lemma generated_grid_cell:
  assumes t: "t \<le> 65535" and c: "0 < c" and cc: "cc < c"
  shows "grid_cell (frame_grid (foldl process_frame init_state
                      (map (frame_of file_bytes n c t) [0..<t]))) r cc
         = (if r * c + cc < t then padded_chunk file_bytes n (r * c + cc) else [])"
proof -
  define frames where "frames = map (frame_of file_bytes n c t) [0..<t]"
  define es where "es = rev (frame_entries frames)"
  have d: "distinct (map frame_pos frames)"
    unfolding frames_def using t c by (rule generated_frames_distinct)
  have "map fst es = rev (map frame_pos frames)"
    by (simp add: es_def frame_entries_def rev_map comp_def)
  then have des: "distinct (map fst es)"
    using d by (simp only: distinct_rev)
  have grid: "map_of (frame_grid (foldl process_frame init_state frames)) = map_of es"
    by (simp add: foldl_frame_grid es_def init_state_def)
  have mem: "((r, cc), v) \<in> set es \<longleftrightarrow> (r * c + cc < t \<and> v = padded_chunk file_bytes n (r * c + cc))"
    for v
  proof
    assume "((r, cc), v) \<in> set es"
    then obtain i where i: "i < t" and p: "frame_pos (frame_of file_bytes n c t i) = (r, cc)"
      and v: "v = frame_chunk (frame_of file_bytes n c t i)"
      by (auto simp: es_def frame_entries_def frames_def)
    have "(i div c, i mod c) = (r, cc)" using p frame_of_fields(1) [OF i t c] by simp
    then have "i = r * c + cc" using div_mult_mod_eq [of i c] by auto
    then show "r * c + cc < t \<and> v = padded_chunk file_bytes n (r * c + cc)"
      using i v frame_of_fields(3) [OF i t c] by simp
  next
    assume a: "r * c + cc < t \<and> v = padded_chunk file_bytes n (r * c + cc)"
    define i where "i = r * c + cc"
    have i: "i < t" using a by (simp add: i_def)
    have "i div c = r" "i mod c = cc" using cc by (simp_all add: i_def)
    then have "frame_pos (frame_of file_bytes n c t i) = (r, cc)"
      using frame_of_fields(1) [OF i t c] by simp
    moreover have "frame_chunk (frame_of file_bytes n c t i) = v"
      using frame_of_fields(3) [OF i t c] a by (simp add: i_def)
    ultimately have "((r, cc), v) \<in> (\<lambda>f. (frame_pos f, frame_chunk f)) ` set frames"
      using i by (force simp: frames_def)
    then show "((r, cc), v) \<in> set es" by (simp add: es_def frame_entries_def)
  qed
  have "map_of es (r, cc)
        = (if r * c + cc < t then Some (padded_chunk file_bytes n (r * c + cc)) else None)"
  proof (cases "r * c + cc < t")
    case True
    then have "((r, cc), padded_chunk file_bytes n (r * c + cc)) \<in> set es" by (simp add: mem)
    then show ?thesis using True des by simp
  next
    case False
    have "map_of es (r, cc) = None"
    proof (cases "map_of es (r, cc)")
      case None
      then show ?thesis .
    next
      case (Some v)
      then have "((r, cc), v) \<in> set es" by (rule map_of_SomeD)
      with False show ?thesis by (simp add: mem)
    qed
    with False show ?thesis by simp
  qed
  then show ?thesis
    by (simp add: grid_cell_def grid frames_def [symmetric])
qed

lemma generated_rows_cols:
  assumes t0: "0 < t" and t: "t \<le> 65535" and c: "0 < c"
  shows "max_row (foldl process_frame init_state (map (frame_of file_bytes n c t) [0..<t]))
         = int ((t - 1) div c)"
    and "max_col (foldl process_frame init_state (map (frame_of file_bytes n c t) [0..<t]))
         = int (min (t - 1) (c - 1))"
proof -
  define frames where "frames = map (frame_of file_bytes n c t) [0..<t]"
  have pos: "frame_pos (frame_of file_bytes n c t i) = (i div c, i mod c)" if "i < t" for i
    using that t c by (rule frame_of_fields(1))
  have rows: "set (map (\<lambda>f. int (row_idx f)) frames) = (\<lambda>i. int (i div c)) ` {0..<t}"
  proof -
    have "row_idx (frame_of file_bytes n c t i) = i div c" if "i < t" for i
      using pos [OF that] by (simp add: frame_pos_def)
    then show ?thesis by (auto simp: frames_def image_iff)
  qed
  have cols: "set (map (\<lambda>f. int (col_idx f)) frames) = (\<lambda>i. int (i mod c)) ` {0..<t}"
  proof -
    have "col_idx (frame_of file_bytes n c t i) = i mod c" if "i < t" for i
      using pos [OF that] by (simp add: frame_pos_def)
    then show ?thesis by (auto simp: frames_def image_iff)
  qed
  have "Max (insert (- 1) ((\<lambda>i. int (i div c)) ` {0..<t})) = int ((t - 1) div c)"
  proof (rule Max_eqI)
    show "finite (insert (- 1) ((\<lambda>i. int (i div c)) ` {0..<t}))" by simp
    show "int ((t - 1) div c) \<in> insert (- 1) ((\<lambda>i. int (i div c)) ` {0..<t})"
      using t0 by (intro insertI2 image_eqI [of _ _ "t - 1"]) simp_all
    fix y assume "y \<in> insert (- 1) ((\<lambda>i. int (i div c)) ` {0..<t})"
    then consider "y = - 1" | i where "i < t" "y = int (i div c)" by auto
    then show "y \<le> int ((t - 1) div c)"
    proof cases
      case 1
      then show ?thesis by simp
    next
      case 2
      then have "i \<le> t - 1" by simp
      then have "i div c \<le> (t - 1) div c" by (rule div_le_mono)
      with 2 show ?thesis by simp
    qed
  qed
  then show "max_row (foldl process_frame init_state (map (frame_of file_bytes n c t) [0..<t]))
         = int ((t - 1) div c)"
    by (simp only: foldl_max_row frames_def [symmetric] rows) (simp add: init_state_def)
  have "Max (insert (- 1) ((\<lambda>i. int (i mod c)) ` {0..<t})) = int (min (t - 1) (c - 1))"
  proof (rule Max_eqI)
    show "finite (insert (- 1) ((\<lambda>i. int (i mod c)) ` {0..<t}))" by simp
    have "min (t - 1) (c - 1) < t" using t0 by simp
    moreover have "min (t - 1) (c - 1) mod c = min (t - 1) (c - 1)" using c by simp
    ultimately show "int (min (t - 1) (c - 1)) \<in> insert (- 1) ((\<lambda>i. int (i mod c)) ` {0..<t})"
      by (intro insertI2 image_eqI [of _ _ "min (t - 1) (c - 1)"]) simp_all
    fix y assume "y \<in> insert (- 1) ((\<lambda>i. int (i mod c)) ` {0..<t})"
    then consider "y = - 1" | i where "i < t" "y = int (i mod c)" by auto
    then show "y \<le> int (min (t - 1) (c - 1))"
    proof cases
      case 1
      then show ?thesis by simp
    next
      case 2
      have "i mod c \<le> i" by (rule mod_less_eq_dividend)
      then have a: "i mod c \<le> t - 1" using 2(1) by linarith
      have "i mod c < c" using c by simp
      then have b: "i mod c \<le> c - 1" by linarith
      from a b 2 show ?thesis by simp
    qed
  qed
  then show "max_col (foldl process_frame init_state (map (frame_of file_bytes n c t) [0..<t]))
         = int (min (t - 1) (c - 1))"
    by (simp only: foldl_max_col frames_def [symmetric] cols) (simp add: init_state_def)
qed

lemma generated_combined_bytes:
  assumes t0: "0 < t" and t: "t \<le> 65535" and c: "0 < c"
  shows "combined_bytes (foldl process_frame init_state (map (frame_of file_bytes n c t) [0..<t]))
         = concat (map (padded_chunk file_bytes n) [0..<t])"
proof -
  define st where "st = foldl process_frame init_state (map (frame_of file_bytes n c t) [0..<t])"
  define g where "g = (\<lambda>j. if j < t then padded_chunk file_bytes n j else [])"
  define R where "R = (t - 1) div c + 1"
  define W where "W = min t c"
  have "nat (int ((t - 1) div c) + 1) = (t - 1) div c + 1" by linarith
  then have mr: "nat (max_row st + 1) = R"
    unfolding st_def R_def generated_rows_cols(1) [OF t0 t c] by simp
  have "min (t - 1) (c - 1) + 1 = min t c" using t0 c by linarith
  moreover have "nat (int (min (t - 1) (c - 1)) + 1) = min (t - 1) (c - 1) + 1" by linarith
  ultimately have mc: "nat (max_col st + 1) = W"
    unfolding st_def W_def generated_rows_cols(2) [OF t0 t c] by simp
  have cell: "grid_cell (frame_grid st) r cc = g (r * c + cc)" if "cc < W" for r cc
  proof -
    have "cc < c" using that by (simp add: W_def)
    then show ?thesis
      unfolding st_def g_def using generated_grid_cell [OF t c] by simp
  qed
  have row: "map (\<lambda>cc. grid_cell (frame_grid st) r cc) [0..<W] = map (\<lambda>cc. g (r * c + cc)) [0..<W]"
    for r
    by (rule map_cong) (simp_all add: cell)
  have cb: "combined_bytes st
            = concat (map (\<lambda>r. concat (map (\<lambda>cc. g (r * c + cc)) [0..<W])) [0..<R])"
    by (simp only: combined_bytes_def mr mc row)
  have all: "concat (map g [0..<t]) = concat (map (padded_chunk file_bytes n) [0..<t])"
    unfolding g_def by (rule concat_beyond) simp
  show ?thesis
  proof (cases "t \<le> c")
    case True
    have "t - 1 < c" using True t0 by simp
    then have R1: "R = 1" by (simp add: R_def)
    have Wt: "W = t" using True by (simp add: W_def)
    have "combined_bytes st = concat (map g [0..<t])"
      by (simp add: cb R1 Wt)
    then show ?thesis by (simp only: all st_def)
  next
    case False
    then have Wc: "W = c" by (simp add: W_def)
    have "t - 1 = (t - 1) div c * c + (t - 1) mod c" by simp
    moreover have "(t - 1) mod c < c" using c by simp
    ultimately have "t - 1 < (t - 1) div c * c + c" by linarith
    then have le: "t \<le> R * c" using t0 by (simp add: R_def)
    have "combined_bytes st = concat (map g [0..<R * c])"
      by (simp only: cb Wc concat_rows)
    also have "\<dots> = concat (map (padded_chunk file_bytes n) [0..<t])"
      unfolding g_def using le by (rule concat_beyond)
    finally show ?thesis by (simp only: st_def)
  qed
qed

lemma roundtrip_outcome:
  assumes "0 < frame_size - header_size" and "0 < c" and "file_bytes \<noteq> []"
    and "total_frames_of (length file_bytes) (nat (frame_size - header_size)) \<le> 65535"
  shows "\<exists>frames. generate_frames_from_file file_bytes frame_size (int c) = Inr frames \<and>
           (\<forall>s. live s \<and> stream s = concat frames \<longrightarrow>
              fst (fst (receive_image (nat frame_size) s))
              = Reconstructed (file_bytes @ replicate
                  (total_frames_of (length file_bytes) (nat (frame_size - header_size))
                     * nat (frame_size - header_size) - length file_bytes) 0))"
proof -
  define n where "n = nat (frame_size - header_size)"
  define t where "t = total_frames_of (length file_bytes) n"
  define frames where "frames = map (frame_of file_bytes n c t) [0..<t]"
  have n: "0 < n" using assms(1) by (simp add: n_def)
  have t: "t \<le> 65535" using assms(4) by (simp add: t_def n_def)
  have ceil: "length file_bytes \<le> t * n" "t * n < length file_bytes + n"
    using total_frames_ceil [OF n, of "length file_bytes"] by (simp_all add: t_def)
  have t0: "0 < t"
  proof (rule ccontr)
    assume "\<not> 0 < t"
    then have "length file_bytes = 0" using ceil(1) by simp
    with assms(3) show False by simp
  qed
  have "frame_of file_bytes n c t
        = (\<lambda>i. header_bytes i c t @ padded_chunk file_bytes n i)"
    by (intro ext) (simp only: frame_of_def)
  then have gen: "generate_frames_from_file file_bytes frame_size (int c) = Inr frames"
    using generate_ok [OF assms(1,2,4)] by (simp only: frames_def n_def t_def)
  note f = generated_frames_facts [OF gen assms(2)]
  have ne: "frames \<noteq> []" using t0 by (simp add: frames_def)
  have out: "fst (fst (receive_image (nat frame_size) s))
             = Reconstructed (file_bytes @ replicate (t * n - length file_bytes) 0)"
    if "live s \<and> stream s = concat frames" for s
  proof -
    have "fst (receive_image (nat frame_size) s) = finish (feed_frames init_state frames)"
      using f(4) that f(3) by (intro receive_image_feed) simp_all
    moreover have "fst (finish (feed_frames init_state frames))
          = Reconstructed (combined_bytes (foldl process_frame init_state frames))"
      using ne f(1,2) by (rule run_complete)
    moreover have "combined_bytes (foldl process_frame init_state frames)
          = concat (map (padded_chunk file_bytes n) [0..<t])"
      unfolding frames_def using t0 t assms(2) by (rule generated_combined_bytes)
    moreover have "concat (map (padded_chunk file_bytes n) [0..<t])
          = file_bytes @ replicate (t * n - length file_bytes) 0"
      using t0 ceil by (rule concat_padded)
    ultimately show ?thesis by simp
  qed
  show ?thesis
    unfolding n_def [symmetric] t_def [symmetric]
    using gen out by blast
qed

lemma padding_length:
  assumes n: "0 < n"
  shows "total_frames_of len n * n - len = (n - len mod n) mod n"
proof (cases "len mod n = 0")
  case True
  then have "n dvd len" by (simp add: mod_eq_0_iff_dvd)
  then obtain q where q: "len = q * n" by (auto simp: dvd_def mult.commute)
  have "(len + n - 1) div n = q"
  proof (rule div_nat_eqI)
    show "n * q \<le> len + n - 1" using n by (simp add: q mult.commute)
    show "len + n - 1 < n * Suc q" using n by (simp add: q mult.commute)
  qed
  then have "total_frames_of len n = q" by (simp add: total_frames_of_def)
  then show ?thesis using True by (simp add: q)
next
  case False
  define r where "r = len mod n"
  define q where "q = len div n"
  have len: "len = q * n + r" by (simp add: q_def r_def)
  have r: "0 < r" "r < n" using False n by (simp_all add: r_def)
  have "(len + n - 1) div n = q + 1"
  proof (rule div_nat_eqI)
    show "n * (q + 1) \<le> len + n - 1" using r by (simp add: len mult.commute)
    show "len + n - 1 < n * Suc (q + 1)" using r by (simp add: len mult.commute)
  qed
  then have "total_frames_of len n = q + 1" by (simp add: total_frames_of_def)
  then have "total_frames_of len n * n - len = n - r" by (simp add: len)
  moreover have "(n - r) mod n = n - r" using r by simp
  ultimately show ?thesis by (simp add: r_def)
qed

text \<open>
  Claim C1 (amended). For every non-empty byte sequence, every \<open>frame_size\<close> greater than
  the 10-byte header and every column count at least 1, provided the number of frames
  fits the 16-bit header fields, the splitter produces its frames, and feeding all of
  them to the reconstruction engine (over any segmentation of the stream) yields the
  original bytes followed by the zero padding of the last chunk: with
  \<open>n = frame_size - 10\<close>, that is \<open>(n - len mod n) mod n\<close> zero bytes. The result is the
  original byte sequence exactly when its length is a multiple of \<open>n\<close>.
\<close>

theorem roundtrip_up_to_padding:
  assumes "header_size < frame_size" and "0 < c" and "file_bytes \<noteq> []"
    and "total_frames_of (length file_bytes) (nat (frame_size - header_size)) \<le> 65535"
  shows "\<exists>frames. generate_frames_from_file file_bytes frame_size (int c) = Inr frames \<and>
           (\<forall>s. live s \<and> stream s = concat frames \<longrightarrow>
              fst (fst (receive_image (nat frame_size) s))
                = Reconstructed (file_bytes @ replicate
                    ((nat (frame_size - header_size)
                        - length file_bytes mod nat (frame_size - header_size))
                      mod nat (frame_size - header_size)) 0) \<and>
              ((fst (fst (receive_image (nat frame_size) s)) = Reconstructed file_bytes)
                = (length file_bytes mod nat (frame_size - header_size) = 0)))"
proof -
  define n where "n = nat (frame_size - header_size)"
  define k where "k = (n - length file_bytes mod n) mod n"
  have p: "0 < frame_size - header_size" using assms(1) by simp
  then have n: "0 < n" by (simp add: n_def)
  have pad: "total_frames_of (length file_bytes) n * n - length file_bytes = k"
    unfolding k_def using n by (rule padding_length)
  have k0: "(k = 0) = (length file_bytes mod n = 0)"
  proof (cases "length file_bytes mod n = 0")
    case True
    then show ?thesis by (simp add: k_def)
  next
    case False
    then have "0 < length file_bytes mod n" by simp
    moreover have "length file_bytes mod n < n" using n by simp
    ultimately have "(n - length file_bytes mod n) mod n = n - length file_bytes mod n"
      and "0 < n - length file_bytes mod n" by simp_all
    then show ?thesis using False by (simp add: k_def)
  qed
  from roundtrip_outcome [OF p assms(2,3,4)]
  obtain frames where gen: "generate_frames_from_file file_bytes frame_size (int c) = Inr frames"
    and out: "\<And>s. live s \<and> stream s = concat frames \<Longrightarrow>
               fst (fst (receive_image (nat frame_size) s))
               = Reconstructed (file_bytes @ replicate k 0)"
    unfolding n_def [symmetric] pad by blast
  have "fst (fst (receive_image (nat frame_size) s)) = Reconstructed (file_bytes @ replicate k 0) \<and>
        ((fst (fst (receive_image (nat frame_size) s)) = Reconstructed file_bytes)
          = (length file_bytes mod n = 0))"
    if "live s \<and> stream s = concat frames" for s
    using out [OF that] k0 by simp
  then show ?thesis
    unfolding n_def [symmetric] k_def [symmetric] using gen by blast
qed

theorem roundtrip_up_to_padding_witness:
  "header_size < 12 \<and> (0 :: nat) < 2 \<and> [1, 2, 3 :: byte] \<noteq> [] \<and>
   total_frames_of (length [1, 2, 3 :: byte]) (nat (12 - header_size)) \<le> 65535 \<and>
   generate_frames_from_file [1, 2, 3] 12 (int 2)
     = Inr [[0, 0, 0, 0, 0, 0, 0, 2, 0, 0, 1, 2], [0, 1, 0, 0, 0, 1, 0, 2, 0, 0, 3, 0]] \<and>
   live [Data [0, 0, 0, 0, 0, 0, 0], Data [2, 0, 0, 1, 2, 0, 1, 0, 0, 0, 1, 0, 2, 0, 0, 3, 0]] \<and>
   fst (fst (receive_image (nat 12)
      [Data [0, 0, 0, 0, 0, 0, 0], Data [2, 0, 0, 1, 2, 0, 1, 0, 0, 0, 1, 0, 2, 0, 0, 3, 0]]))
     = Reconstructed [1, 2, 3, 0]"
proof -
  have u: "[0..<(2::nat)] = [0, 1]" by code_simp
  have h1: "header_size < 12" by (simp add: header_size_def)
  have h2: "(0 :: nat) < 2" by simp
  have h3: "[1, 2, 3 :: byte] \<noteq> []" by simp
  have h4: "total_frames_of (length [1, 2, 3 :: byte]) (nat (12 - header_size)) \<le> 65535"
    by (simp add: total_frames_of_def header_size_def)
  have g: "generate_frames_from_file [1, 2, 3] 12 (int 2)
     = Inr [[0, 0, 0, 0, 0, 0, 0, 2, 0, 0, 1, 2], [0, 1, 0, 0, 0, 1, 0, 2, 0, 0, 3, 0]]"
    by (simp add: generate_frames_from_file_def make_frame_def to_bytes2_def slice_def
        header_size_def Let_def u)
  have l: "live [Data [0, 0, 0, 0, 0, 0, 0],
                 Data [2, 0, 0, 1, 2, 0, 1, 0, 0, 0, 1, 0, 2, 0, 0, 3, 0 :: byte]]"
    by (simp add: live_def)
  have s: "stream [Data [0, 0, 0, 0, 0, 0, 0],
                   Data [2, 0, 0, 1, 2, 0, 1, 0, 0, 0, 1, 0, 2, 0, 0, 3, 0]]
           = concat [[0, 0, 0, 0, 0, 0, 0, 2, 0, 0, 1, 2], [0, 1, 0, 0, 0, 1, 0, 2, 0, 0, 3, 0]]"
    by (simp add: stream_def)
  have m: "(nat (12 - header_size) - length [1, 2, 3 :: byte] mod nat (12 - header_size))
             mod nat (12 - header_size) = 1"
    by (simp add: header_size_def)
  have r: "replicate 1 (0 :: byte) = [0]" by simp
  define S where "S = [Data [0, 0, 0, 0, 0, 0, 0],
                        Data [2, 0, 0, 1, 2, 0, 1, 0, 0, 0, 1, 0, 2, 0, 0, 3, 0 :: byte]]"
  from roundtrip_up_to_padding [OF h1 h2 h3 h4]
  obtain frames where gen: "generate_frames_from_file [1, 2, 3] 12 (int 2) = Inr frames"
    and out: "\<And>s. live s \<and> stream s = concat frames \<Longrightarrow>
       fst (fst (receive_image (nat 12) s))
       = Reconstructed ([1, 2, 3] @ replicate
           ((nat (12 - header_size) - length [1, 2, 3 :: byte] mod nat (12 - header_size))
              mod nat (12 - header_size)) 0)"
    by blast
  have fr: "frames = [[0, 0, 0, 0, 0, 0, 0, 2, 0, 0, 1, 2], [0, 1, 0, 0, 0, 1, 0, 2, 0, 0, 3, 0]]"
    using gen g by simp
  have "live S \<and> stream S = concat frames" using l s by (simp only: S_def fr) 
  then have "fst (fst (receive_image (nat 12) S)) = Reconstructed ([1, 2, 3] @ replicate 1 0)"
    using out [of S] by (simp only: m)
  then have "fst (fst (receive_image (nat 12) S)) = Reconstructed [1, 2, 3, 0]"
    by (simp only: r append.simps)
  then show ?thesis using h1 h2 h3 h4 g l unfolding S_def by blast
qed

theorem roundtrip_padding_counterexample:
  "(10 :: int) < 12 \<and> (1 :: nat) \<le> 2 \<and>
   generate_frames_from_file [1, 2, 3] 12 2
     = Inr [[0, 0, 0, 0, 0, 0, 0, 2, 0, 0, 1, 2], [0, 1, 0, 0, 0, 1, 0, 2, 0, 0, 3, 0]] \<and>
   fst (fst (receive_image 12
      [Data [0, 0, 0, 0, 0, 0, 0, 2, 0, 0, 1, 2], Data [0, 1, 0, 0, 0, 1, 0, 2, 0, 0, 3, 0]]))
     = Reconstructed [1, 2, 3, 0] \<and>
   Reconstructed [1, 2, 3, 0] \<noteq> Reconstructed [1, 2, 3] \<and>
   generate_frames_from_file [] 12 2 = Inr [] \<and>
   fst (fst (receive_image 12 [])) = Incomplete (- 1) 0"
proof -
  have u: "[0..<(2::nat)] = [0, 1]" by code_simp
  have h1: "0 < 12 - header_size" by (simp add: header_size_def)
  have h2: "(0 :: nat) < 2" by simp
  have h3: "[1, 2, 3 :: byte] \<noteq> []" by simp
  have h4: "total_frames_of (length [1, 2, 3 :: byte]) (nat (12 - header_size)) \<le> 65535"
    by (simp add: total_frames_of_def header_size_def)
  have g: "generate_frames_from_file [1, 2, 3] 12 (int 2)
     = Inr [[0, 0, 0, 0, 0, 0, 0, 2, 0, 0, 1, 2], [0, 1, 0, 0, 0, 1, 0, 2, 0, 0, 3, 0]]"
    by (simp add: generate_frames_from_file_def make_frame_def to_bytes2_def slice_def
        header_size_def Let_def u)
  have l: "live [Data [0, 0, 0, 0, 0, 0, 0, 2, 0, 0, 1, 2],
                 Data [0, 1, 0, 0, 0, 1, 0, 2, 0, 0, 3, 0 :: byte]]"
    by (simp add: live_def)
  have s: "stream [Data [0, 0, 0, 0, 0, 0, 0, 2, 0, 0, 1, 2],
                   Data [0, 1, 0, 0, 0, 1, 0, 2, 0, 0, 3, 0]]
           = concat [[0, 0, 0, 0, 0, 0, 0, 2, 0, 0, 1, 2], [0, 1, 0, 0, 0, 1, 0, 2, 0, 0, 3, 0]]"
    by (simp add: stream_def)
  have m: "total_frames_of (length [1, 2, 3 :: byte]) (nat (12 - header_size))
             * nat (12 - header_size) - length [1, 2, 3 :: byte] = 1"
    by (simp add: total_frames_of_def header_size_def)
  have r: "replicate 1 (0 :: byte) = [0]" by simp
  from roundtrip_outcome [OF h1 h2 h3 h4] g l s
  have a: "fst (fst (receive_image (nat 12)
      [Data [0, 0, 0, 0, 0, 0, 0, 2, 0, 0, 1, 2], Data [0, 1, 0, 0, 0, 1, 0, 2, 0, 0, 3, 0]]))
     = Reconstructed ([1, 2, 3] @ replicate 1 0)"
    unfolding m by auto
  have e: "generate_frames_from_file [] 12 2 = Inr []"
    by (simp add: generate_frames_from_file_def header_size_def Let_def)
  have f: "fst (fst (receive_image 12 [])) = Incomplete (- 1) 0"
    by (subst receive_image_def, subst frame_loop.simps)
       (simp add: recv_all_def recv_all_loop_step finish_def init_state_def Let_def)
  from a g e f show ?thesis by (simp only: r append.simps) simp
qed

end
